theory Spec2Isabelle
  imports Main "HOL-Library.Multiset"
begin

section \<open>Disk scheduler: data model\<close>

text \<open>
  The class \<^verbatim>\<open>DiskScheduler\<close> of \<^verbatim>\<open>app/algorithms/disk_scheduling.py\<close> holds the
  request list, the initial head position and the disk size. Track numbers are Python
  integers (unbounded), so they are \<^typ>\<open>int\<close>.
\<close>

record scheduler =
  requests :: "int list"
  initial_position :: int
  disk_size :: int

text \<open>
  The two failures the source raises itself are \<^verbatim>\<open>ValueError\<close>s, told apart by their
  message: \<^verbatim>\<open>Request {req} is out of bounds (0-{disk_size-1})\<close> carries the offending
  request and the disk size, \<^verbatim>\<open>Unknown algorithm: {algorithm}\<close> carries the upper-cased
  name, a list of code points. The other two are what Python raises for the division
  in \<^verbatim>\<open>simulate\<close>: for the divisor zero, and for a quotient beyond the range of floats.
\<close>

datatype error =
  OutOfBounds int int | UnknownAlgorithm "nat list" | ZeroDivisionError | OverflowError

subsection \<open>Construction and validation\<close>

text \<open>
  \<^verbatim>\<open>validate_requests\<close>: the loop over \<^verbatim>\<open>self.requests\<close> raises at the first request
  with \<^verbatim>\<open>req < 0 or req >= self.disk_size\<close>. It reads no other field.
\<close>

fun validate_requests :: "int list \<Rightarrow> int \<Rightarrow> error + unit" where
  "validate_requests [] dsize = Inr ()"
| "validate_requests (req # rest) dsize =
     (if req < 0 \<or> req \<ge> dsize then Inl (OutOfBounds req dsize)
      else validate_requests rest dsize)"

text \<open>
  \<^verbatim>\<open>__init__\<close>: stores a copy of the requests, the initial position and the disk size,
  then calls \<^verbatim>\<open>validate_requests\<close>; the object exists only when that call returns.
\<close>

definition init :: "int list \<Rightarrow> int \<Rightarrow> int \<Rightarrow> error + scheduler" where
  "init reqs pos dsize =
     (case validate_requests reqs dsize of
        Inl e \<Rightarrow> Inl e
      | Inr _ \<Rightarrow> Inr \<lparr>requests = reqs, initial_position = pos, disk_size = dsize\<rparr>)"

subsection \<open>Seek-time accounting\<close>

text \<open>
  The \<^verbatim>\<open>for track in sequence\<close> loop of \<^verbatim>\<open>calculate_seek_time\<close>, with its three
  loop variables \<^verbatim>\<open>seek_operations\<close>, \<^verbatim>\<open>total_seek_time\<close> and \<^verbatim>\<open>current\<close>.
\<close>

fun seek_loop :: "int list \<Rightarrow> (int \<times> int) list \<Rightarrow> int \<Rightarrow> int \<Rightarrow> int \<times> (int \<times> int) list" where
  "seek_loop [] seek_operations total_seek_time current = (total_seek_time, seek_operations)"
| "seek_loop (track # rest) seek_operations total_seek_time current =
     seek_loop rest (seek_operations @ [(current, track)])
       (total_seek_time + \<bar>track - current\<bar>) track"

definition calculate_seek_time :: "scheduler \<Rightarrow> int list \<Rightarrow> int \<times> (int \<times> int) list" where
  "calculate_seek_time s sequence =
     (if sequence = [] then (0, [])
      else seek_loop sequence [] 0 (initial_position s))"

text \<open>The cost of one recorded head movement.\<close>

definition seek_distance :: "int \<times> int \<Rightarrow> int" where
  "seek_distance mv = \<bar>snd mv - fst mv\<bar>"

subsection \<open>Strings\<close>

text \<open>
  A name is a \<^typ>\<open>string\<close>: a list of characters with code points below 256.

  \<^verbatim>\<open>str.lower()\<close> is used by the source only to compare a direction with the word
  \<^verbatim>\<open>right\<close>. It is taken over the letters \<open>A\<close>..\<open>Z\<close>: the other characters below 256
  that Python lowers, 192..222, go to 224..254, so neither they nor their lower-case
  forms occur in an ASCII word, and the comparison with one comes out the same.
\<close>

definition lower_char :: "char \<Rightarrow> char" where
  "lower_char c =
     (let n = (of_char c :: nat) in if 65 \<le> n \<and> n \<le> 90 then char_of (n + 32) else c)"

definition lower :: "string \<Rightarrow> string" where
  "lower str = map lower_char str"

text \<open>
  \<^verbatim>\<open>str.upper()\<close> replaces every character by its upper-case form, which can be two
  characters long and can lie beyond code point 255, so the result is a list of code
  points. On the code points below 256 Python's table is: \<open>a\<close>..\<open>z\<close> (97..122) and the
  letters 224..254 other than the division sign 247 move down by 32; the micro sign
  181 goes to 924; the sharp s 223 goes to \<open>SS\<close> (83, 83); 255 goes to 376; every other
  character is its own upper-case form.
\<close>

definition upper_char :: "char \<Rightarrow> nat list" where
  "upper_char c =
     (let n = (of_char c :: nat) in
      if 97 \<le> n \<and> n \<le> 122 then [n - 32]
      else if n = 181 then [924]
      else if n = 223 then [83, 83]
      else if 224 \<le> n \<and> n \<le> 254 \<and> n \<noteq> 247 then [n - 32]
      else if n = 255 then [376]
      else [n])"

definition upper :: "string \<Rightarrow> nat list" where
  "upper str = concat (map upper_char str)"

text \<open>A string literal of the source, as the list of its code points.\<close>

definition code_points :: "string \<Rightarrow> nat list" where
  "code_points str = map of_char str"

subsection \<open>FCFS\<close>

definition fcfs :: "scheduler \<Rightarrow> int list \<times> int \<times> (int \<times> int) list" where
  "fcfs s =
     (let sequence = requests s;
          (total_seek_time, seek_operations) = calculate_seek_time s sequence
      in (sequence, total_seek_time, seek_operations))"

subsection \<open>SSTF\<close>

text \<open>
  \<^verbatim>\<open>min(remaining_requests, key=lambda x: abs(x - current_position))\<close>: Python's
  \<^verbatim>\<open>min\<close> walks the list from its first element and replaces the best item so far
  only by one whose key is strictly smaller. The first argument after the key is the
  best item so far.
\<close>

fun min_key_from :: "(int \<Rightarrow> int) \<Rightarrow> int \<Rightarrow> int list \<Rightarrow> int" where
  "min_key_from key best [] = best"
| "min_key_from key best (x # xs) =
     min_key_from key (if key x < key best then x else best) xs"

text \<open>
  The \<^verbatim>\<open>while remaining_requests\<close> loop of \<^verbatim>\<open>sstf\<close>. \<^verbatim>\<open>list.remove(closest)\<close>
  deletes the first element equal to \<^verbatim>\<open>closest\<close>; it raises only for a value that is
  not in the list, and \<^verbatim>\<open>closest\<close> always is: the termination proof below rests on
  exactly that.
\<close>

function sstf_loop :: "int list \<Rightarrow> int \<Rightarrow> int list \<Rightarrow> int list" where
  "sstf_loop [] current_position sequence = sequence"
| "sstf_loop (r # rs) current_position sequence =
     (let closest = min_key_from (\<lambda>x. \<bar>x - current_position\<bar>) r rs
      in sstf_loop (remove1 closest (r # rs)) closest (sequence @ [closest]))"
  by pat_completeness auto
termination
proof (relation "measure (\<lambda>(remaining, cur, seq). length remaining)")
  show "wf (measure (\<lambda>(remaining, cur, seq). length remaining))"
    by simp
next
  fix r rs current_position and sequence :: "int list" and closest
  have mem: "min_key_from key best xs \<in> set (best # xs)" for key best xs
    by (induction xs arbitrary: best) auto
  assume "closest = min_key_from (\<lambda>x. \<bar>x - current_position\<bar>) r rs"
  then have "closest \<in> set (r # rs)"
    by (simp only: mem)
  then have "length (remove1 closest (r # rs)) < length (r # rs)"
    by (simp only: length_remove1) simp
  then show "((remove1 closest (r # rs), closest, sequence @ [closest]), (r # rs, current_position, sequence))
      \<in> measure (\<lambda>(remaining, cur, seq). length remaining)"
    by simp
qed

definition sstf :: "scheduler \<Rightarrow> int list \<times> int \<times> (int \<times> int) list" where
  "sstf s =
     (let sequence = sstf_loop (requests s) (initial_position s) [];
          (total_seek_time, seek_operations) = calculate_seek_time s sequence
      in (sequence, total_seek_time, seek_operations))"

subsection \<open>The directional policies\<close>

text \<open>
  \<^verbatim>\<open>sorted(xs)\<close> is \<^term>\<open>sort xs\<close>. \<^verbatim>\<open>sorted(xs, reverse=True)\<close> sorts in decreasing
  order; on integers, where equal elements cannot be told apart, that is the
  increasing order read backwards.
\<close>

definition sorted_reverse :: "int list \<Rightarrow> int list" where
  "sorted_reverse xs = rev (sort xs)"

definition scan :: "scheduler \<Rightarrow> string \<Rightarrow> int list \<times> int \<times> (int \<times> int) list" where
  "scan s direction =
     (let remaining_requests = sort (requests s);
          current_position = initial_position s;
          going_right = (lower direction = ''right'');
          sequence =
            (if going_right then
               (let right_side = filter (\<lambda>r. r \<ge> current_position) remaining_requests;
                    left_side = filter (\<lambda>r. r < current_position) remaining_requests
                in sort right_side @
                   (if left_side \<noteq> [] then [disk_size s - 1] @ sorted_reverse left_side else []))
             else
               (let left_side = filter (\<lambda>r. r \<le> current_position) remaining_requests;
                    right_side = filter (\<lambda>r. r > current_position) remaining_requests
                in sorted_reverse left_side @
                   (if right_side \<noteq> [] then [0] @ sort right_side else [])));
          (total_seek_time, seek_operations) = calculate_seek_time s sequence
      in (sequence, total_seek_time, seek_operations))"

definition c_scan :: "scheduler \<Rightarrow> string \<Rightarrow> int list \<times> int \<times> (int \<times> int) list" where
  "c_scan s direction =
     (let remaining_requests = sort (requests s);
          current_position = initial_position s;
          going_right = (lower direction = ''right'');
          sequence =
            (if going_right then
               (let right_side = filter (\<lambda>r. r \<ge> current_position) remaining_requests;
                    left_side = filter (\<lambda>r. r < current_position) remaining_requests
                in sort right_side @
                   (if left_side \<noteq> [] then [disk_size s - 1] @ [0] @ sort left_side else []))
             else
               (let left_side = filter (\<lambda>r. r \<le> current_position) remaining_requests;
                    right_side = filter (\<lambda>r. r > current_position) remaining_requests
                in sorted_reverse left_side @
                   (if right_side \<noteq> [] then [0] @ [disk_size s - 1] @ sorted_reverse right_side
                    else [])));
          (total_seek_time, seek_operations) = calculate_seek_time s sequence
      in (sequence, total_seek_time, seek_operations))"

text \<open>\<^verbatim>\<open>look\<close> and \<^verbatim>\<open>c_look\<close> return early, before any accounting, when there is no request.\<close>

definition look :: "scheduler \<Rightarrow> string \<Rightarrow> int list \<times> int \<times> (int \<times> int) list" where
  "look s direction =
     (let remaining_requests = sort (requests s);
          current_position = initial_position s;
          going_right = (lower direction = ''right'')
      in if remaining_requests = [] then ([], 0, [])
         else
           (let sequence =
                  (if going_right then
                     (let right_side = filter (\<lambda>r. r \<ge> current_position) remaining_requests;
                          left_side = filter (\<lambda>r. r < current_position) remaining_requests
                      in sort right_side @
                         (if left_side \<noteq> [] then sorted_reverse left_side else []))
                   else
                     (let left_side = filter (\<lambda>r. r \<le> current_position) remaining_requests;
                          right_side = filter (\<lambda>r. r > current_position) remaining_requests
                      in sorted_reverse left_side @
                         (if right_side \<noteq> [] then sort right_side else [])));
                (total_seek_time, seek_operations) = calculate_seek_time s sequence
            in (sequence, total_seek_time, seek_operations)))"

definition c_look :: "scheduler \<Rightarrow> string \<Rightarrow> int list \<times> int \<times> (int \<times> int) list" where
  "c_look s direction =
     (let remaining_requests = sort (requests s);
          current_position = initial_position s;
          going_right = (lower direction = ''right'')
      in if remaining_requests = [] then ([], 0, [])
         else
           (let sequence =
                  (if going_right then
                     (let right_side = filter (\<lambda>r. r \<ge> current_position) remaining_requests;
                          left_side = filter (\<lambda>r. r < current_position) remaining_requests
                      in sort right_side @
                         (if left_side \<noteq> [] then sort left_side else []))
                   else
                     (let left_side = filter (\<lambda>r. r \<le> current_position) remaining_requests;
                          right_side = filter (\<lambda>r. r > current_position) remaining_requests
                      in sorted_reverse left_side @
                         (if right_side \<noteq> [] then sorted_reverse right_side else [])));
                (total_seek_time, seek_operations) = calculate_seek_time s sequence
            in (sequence, total_seek_time, seek_operations)))"

subsection \<open>The dispatcher\<close>

text \<open>
  The average is \<^verbatim>\<open>round(total_seek_time / len(sequence), 2)\<close>, a binary floating-point
  number, or the integer \<^verbatim>\<open>0\<close> for an empty sequence. The value of the float is not
  interpreted here: \<open>Rounded_quotient t n\<close> stands for the float Python computes from
  the integers \<open>t\<close> and \<open>n\<close>, \<open>Integer_zero\<close> for the integer \<^verbatim>\<open>0\<close>.

  The division of two integers raises \<^verbatim>\<open>ZeroDivisionError\<close> for the divisor 0 and
  \<^verbatim>\<open>OverflowError\<close> when the quotient, rounded to the nearest float, is beyond the
  largest one: that is from \<open>2^1024 - 2^970\<close> on, halfway between the largest float
  \<open>2^1024 - 2^971\<close> and \<open>2^1024\<close>. Rounding a float to two decimals raises nothing.
\<close>

datatype average = Integer_zero | Rounded_quotient int nat

definition quotient_overflows :: "int \<Rightarrow> nat \<Rightarrow> bool" where
  "quotient_overflows t n = (n \<noteq> 0 \<and> (2 ^ 1024 - 2 ^ 970) * int n \<le> \<bar>t\<bar>)"

definition rounded_quotient :: "int \<Rightarrow> nat \<Rightarrow> error + average" where
  "rounded_quotient t n =
     (if n = 0 then Inl ZeroDivisionError
      else if quotient_overflows t n then Inl OverflowError
      else Inr (Rounded_quotient t n))"

record result =
  algorithm :: "nat list"
  sequence :: "int list"
  total_seek_time :: int
  average_seek_time :: average
  seek_operations :: "(int \<times> int) list"
  total_requests :: nat
  result_initial_position :: int

text \<open>The \<^verbatim>\<open>if\<close>/\<^verbatim>\<open>elif\<close> chain of \<^verbatim>\<open>simulate\<close> on the upper-cased name.\<close>

definition dispatch ::
  "scheduler \<Rightarrow> nat list \<Rightarrow> string \<Rightarrow> error + (int list \<times> int \<times> (int \<times> int) list)" where
  "dispatch s name direction =
     (if name = code_points ''FCFS'' then Inr (fcfs s)
      else if name = code_points ''SSTF'' then Inr (sstf s)
      else if name = code_points ''SCAN'' then Inr (scan s direction)
      else if name = code_points ''C-SCAN'' \<or> name = code_points ''CSCAN''
        then Inr (c_scan s direction)
      else if name = code_points ''LOOK'' then Inr (look s direction)
      else if name = code_points ''C-LOOK'' \<or> name = code_points ''CLOOK''
        then Inr (c_look s direction)
      else Inl (UnknownAlgorithm name))"

definition simulate :: "scheduler \<Rightarrow> string \<Rightarrow> string \<Rightarrow> error + result" where
  "simulate s algorithm_name direction =
     (let name = upper algorithm_name in
      case dispatch s name direction of
        Inl e \<Rightarrow> Inl e
      | Inr (seq, seek_total, ops) \<Rightarrow>
          (case (if seq \<noteq> [] then rounded_quotient seek_total (length seq) else Inr Integer_zero) of
             Inl e \<Rightarrow> Inl e
           | Inr average \<Rightarrow>
               Inr \<lparr>algorithm = name,
                    sequence = seq,
                    total_seek_time = seek_total,
                    average_seek_time = average,
                    seek_operations = ops,
                    total_requests = length (requests s),
                    result_initial_position = initial_position s\<rparr>))"

text \<open>
  The result record assembled from a policy's outcome, with the average of a non-empty
  order taken over its length.
\<close>

definition result_of ::
  "scheduler \<Rightarrow> nat list \<Rightarrow> int list \<times> int \<times> (int \<times> int) list \<Rightarrow> result" where
  "result_of s name outcome =
     \<lparr>algorithm = name,
      sequence = fst outcome,
      total_seek_time = fst (snd outcome),
      average_seek_time =
        (if fst outcome \<noteq> [] then Rounded_quotient (fst (snd outcome)) (length (fst outcome))
         else Integer_zero),
      seek_operations = snd (snd outcome),
      total_requests = length (requests s),
      result_initial_position = initial_position s\<rparr>"

subsection \<open>The specification's notion of a supported name\<close>

text \<open>
  In the specification's words a name is supported when it is, case-insensitively, one
  of FCFS, SSTF, SCAN, C-SCAN (or CSCAN), LOOK, C-LOOK (or CLOOK). Two names are equal
  ignoring case when their lower-case forms are equal. These definitions follow the
  specification, not the code, which compares the upper-case form with literals.
\<close>

definition supported_algorithms :: "string list" where
  "supported_algorithms =
     [''FCFS'', ''SSTF'', ''SCAN'', ''C-SCAN'', ''CSCAN'', ''LOOK'', ''C-LOOK'', ''CLOOK'']"

definition equal_ignoring_case :: "string \<Rightarrow> string \<Rightarrow> bool" where
  "equal_ignoring_case a b = (lower a = lower b)"

definition recognized :: "string \<Rightarrow> bool" where
  "recognized name = (\<exists>n\<in>set supported_algorithms. equal_ignoring_case name n)"

text \<open>A name of ASCII characters only.\<close>

definition ascii :: "string \<Rightarrow> bool" where
  "ascii str = list_all (\<lambda>c. (of_char c :: nat) < 128) str"

text \<open>
  The upper-case form of an ASCII character, as a character: on ASCII text
  \<^verbatim>\<open>str.upper()\<close> moves the letters \<open>a\<close>..\<open>z\<close> and nothing else.
\<close>

definition ascii_upper_char :: "char \<Rightarrow> char" where
  "ascii_upper_char c =
     (let n = (of_char c :: nat) in if 97 \<le> n \<and> n \<le> 122 then char_of (n - 32) else c)"

definition ascii_upper :: "string \<Rightarrow> string" where
  "ascii_upper str = map ascii_upper_char str"

section \<open>Seek-time accounting: properties\<close>

text \<open>
  The operations pair every track with its predecessor, the head position coming first
  (\<open>zip\<close> stops at the end of the shorter list, here the sequence itself).
\<close>

lemma seek_loop_ops:
  "snd (seek_loop seq ops acc cur) = ops @ zip (cur # seq) seq"
  by (induction seq arbitrary: ops acc cur) simp_all

lemma seek_loop_total:
  "fst (seek_loop seq ops acc cur) = acc + sum_list (map seek_distance (zip (cur # seq) seq))"
  by (induction seq arbitrary: ops acc cur) (simp_all add: seek_distance_def)

lemma calculate_seek_time_ops:
  "snd (calculate_seek_time s seq) = zip (initial_position s # seq) seq"
  by (simp add: calculate_seek_time_def seek_loop_ops)

lemma calculate_seek_time_total:
  "fst (calculate_seek_time s seq) =
     sum_list (map seek_distance (zip (initial_position s # seq) seq))"
  by (simp add: calculate_seek_time_def seek_loop_total)

text \<open>
  C1. For every starting position and every track sequence, the total returned by
  \<^verbatim>\<open>calculate_seek_time\<close> is the sum of \<open>|to - from|\<close> over the returned operations;
  there are as many operations as tracks; the first operation starts at the initial
  head position; each operation ends where the next one starts (and ends at the track
  it services); the empty sequence gives total 0 and no operation.
\<close>

theorem calculate_seek_time_contract:
  "fst (calculate_seek_time s seq) = sum_list (map seek_distance (snd (calculate_seek_time s seq)))
   \<and> length (snd (calculate_seek_time s seq)) = length seq
   \<and> (seq \<noteq> [] \<longrightarrow> fst (hd (snd (calculate_seek_time s seq))) = initial_position s)
   \<and> (\<forall>i. Suc i < length seq \<longrightarrow>
         snd (snd (calculate_seek_time s seq) ! i) = fst (snd (calculate_seek_time s seq) ! Suc i))
   \<and> map snd (snd (calculate_seek_time s seq)) = seq
   \<and> calculate_seek_time s [] = (0, [])"
proof -
  let ?ops = "zip (initial_position s # seq) seq"
  have ops: "snd (calculate_seek_time s seq) = ?ops"
    by (rule calculate_seek_time_ops)
  have total: "fst (calculate_seek_time s seq) = sum_list (map seek_distance ?ops)"
    by (rule calculate_seek_time_total)
  have len: "length ?ops = length seq"
    by simp
  have first: "seq \<noteq> [] \<longrightarrow> fst (hd ?ops) = initial_position s"
    by (cases seq) simp_all
  have chain: "\<forall>i. Suc i < length seq \<longrightarrow> snd (?ops ! i) = fst (?ops ! Suc i)"
    by simp
  have targets: "map snd ?ops = seq"
    by (induction seq arbitrary: s) (simp_all add: map_snd_zip_take)
  have empty: "calculate_seek_time s [] = (0, [])"
    by (simp add: calculate_seek_time_def)
  show ?thesis
    unfolding ops total using len first chain targets empty by blast
qed

theorem calculate_seek_time_contract_witness:
  "fst (calculate_seek_time \<lparr>requests = [], initial_position = 53, disk_size = 200\<rparr> [98, 183, 37])
     = sum_list (map seek_distance [(53, 98), (98, 183), (183, 37)])
   \<and> snd (calculate_seek_time \<lparr>requests = [], initial_position = 53, disk_size = 200\<rparr> [98, 183, 37])
     = [(53, 98), (98, 183), (183, 37)]
   \<and> fst (calculate_seek_time \<lparr>requests = [], initial_position = 53, disk_size = 200\<rparr> [98, 183, 37]) = 276
   \<and> fst (hd (snd (calculate_seek_time \<lparr>requests = [], initial_position = 53, disk_size = 200\<rparr>
         [98, 183, 37]))) = 53
   \<and> snd (snd (calculate_seek_time \<lparr>requests = [], initial_position = 53, disk_size = 200\<rparr>
         [98, 183, 37]) ! 0)
     = fst (snd (calculate_seek_time \<lparr>requests = [], initial_position = 53, disk_size = 200\<rparr>
         [98, 183, 37]) ! Suc 0)"
proof -
  let ?s = "\<lparr>requests = [], initial_position = 53, disk_size = 200\<rparr>"
  let ?seq = "[98, 183, 37] :: int list"
  note contract = calculate_seek_time_contract [of ?s ?seq]
  have ne: "?seq \<noteq> []"
    by simp
  have two: "Suc 0 < length ?seq"
    by simp
  have ops: "snd (calculate_seek_time ?s ?seq) = [(53, 98), (98, 183), (183, 37)]"
    by (simp add: calculate_seek_time_def)
  have total: "fst (calculate_seek_time ?s ?seq) = sum_list (map seek_distance (snd (calculate_seek_time ?s ?seq)))"
    using contract by blast
  have first: "fst (hd (snd (calculate_seek_time ?s ?seq))) = initial_position ?s"
    using contract ne by blast
  have chain: "snd (snd (calculate_seek_time ?s ?seq) ! 0) = fst (snd (calculate_seek_time ?s ?seq) ! Suc 0)"
    using contract two by blast
  have sum: "sum_list (map seek_distance [(53, 98), (98, 183), (183, 37)]) = 276"
    by (simp add: seek_distance_def)
  from total first chain ops sum show ?thesis
    by simp
qed

section \<open>FCFS\<close>

lemma init_requests:
  "init reqs pos dsize = Inr s \<Longrightarrow> requests s = reqs \<and> initial_position s = pos \<and> disk_size s = dsize"
  by (auto simp: init_def split: sum.splits)

text \<open>
  C7. FCFS services the requests in the order they were given, unmodified: the order
  is the scheduler's request list, which is the list the scheduler was constructed
  from, and the accounting runs on that list. For requests
  \<open>[98,183,37,122,14,124,65,67]\<close>, initial position 53 and disk size 200 the order is
  the input and the total seek time is 640.
\<close>

theorem fcfs_identity:
  "fst (fcfs s) = requests s
   \<and> (init reqs pos dsize = Inr s \<longrightarrow> fst (fcfs s) = reqs)
   \<and> snd (fcfs s) = calculate_seek_time s (requests s)
   \<and> (\<exists>s0. init [98, 183, 37, 122, 14, 124, 65, 67] 53 200 = Inr s0
         \<and> fcfs s0 = ([98, 183, 37, 122, 14, 124, 65, 67], 640,
              [(53, 98), (98, 183), (183, 37), (37, 122), (122, 14), (14, 124), (124, 65), (65, 67)]))"
proof -
  have order: "fst (fcfs s) = requests s"
    by (simp add: fcfs_def Let_def split: prod.split)
  have from_input: "init reqs pos dsize = Inr s \<longrightarrow> fst (fcfs s) = reqs"
    using order init_requests by auto
  have accounting: "snd (fcfs s) = calculate_seek_time s (requests s)"
    by (simp add: fcfs_def Let_def split: prod.split)
  let ?s0 = "\<lparr>requests = [98, 183, 37, 122, 14, 124, 65, 67], initial_position = 53, disk_size = 200\<rparr>"
  have valid: "init [98, 183, 37, 122, 14, 124, 65, 67] 53 200 = Inr ?s0"
    by (simp add: init_def)
  have scenario: "fcfs ?s0 = ([98, 183, 37, 122, 14, 124, 65, 67], 640,
      [(53, 98), (98, 183), (183, 37), (37, 122), (122, 14), (14, 124), (124, 65), (65, 67)])"
    by (simp add: fcfs_def calculate_seek_time_def)
  from order from_input accounting valid scenario show ?thesis
    by blast
qed

theorem fcfs_identity_witness:
  "init [3, 1, 2] 0 10 = Inr \<lparr>requests = [3, 1, 2], initial_position = 0, disk_size = 10\<rparr>
   \<and> fst (fcfs \<lparr>requests = [3, 1, 2], initial_position = 0, disk_size = 10\<rparr>) = [3, 1, 2]"
proof -
  let ?s = "\<lparr>requests = [3, 1, 2], initial_position = 0, disk_size = 10\<rparr>"
  have valid: "init [3, 1, 2] 0 10 = Inr ?s"
    by (simp add: init_def)
  with fcfs_identity [of ?s "[3, 1, 2]" 0 10] show ?thesis
    by blast
qed

section \<open>The directional policies: service orders\<close>

text \<open>
  Each policy sorts the requests and then filters the two sides out of the sorted list;
  sorting a side again changes nothing, so a side is the sorted list of the requests
  that satisfy its test.
\<close>

lemma sort_side: "sort (filter P (sort xs)) = sort (filter P xs)"
  by (simp add: filter_sort sorted_sort_id)

lemma sorted_reverse_side: "sorted_reverse (filter P (sort xs)) = rev (sort (filter P xs))"
  by (simp add: sorted_reverse_def sort_side)

lemma side_nonempty: "(filter P (sort xs) \<noteq> []) = (\<exists>r\<in>set xs. P r)"
  by (simp add: filter_empty_conv)

lemma lower_right: "lower ''right'' = ''right''"
  by code_simp

lemma lower_left: "lower ''left'' \<noteq> ''right''"
  by code_simp

lemma sort_Nil_iff: "(sort xs = []) = (xs = [])"
  using length_sort [of "\<lambda>x. x" xs] by (simp only: flip: length_0_conv)

lemmas side_simps = sort_side sorted_reverse_side side_nonempty sort_Nil_iff

lemma scan_right:
  "lower d = ''right'' \<Longrightarrow> fst (scan s d) =
      sort (filter (\<lambda>r. r \<ge> initial_position s) (requests s))
      @ (if \<exists>r\<in>set (requests s). r < initial_position s then [disk_size s - 1] else [])
      @ rev (sort (filter (\<lambda>r. r < initial_position s) (requests s)))"
  by (simp add: scan_def Let_def side_simps split: prod.split)

lemma scan_left:
  "lower d \<noteq> ''right'' \<Longrightarrow> fst (scan s d) =
      rev (sort (filter (\<lambda>r. r \<le> initial_position s) (requests s)))
      @ (if \<exists>r\<in>set (requests s). r > initial_position s then [0] else [])
      @ sort (filter (\<lambda>r. r > initial_position s) (requests s))"
  by (simp add: scan_def Let_def side_simps split: prod.split)

lemma c_scan_right:
  "lower d = ''right'' \<Longrightarrow> fst (c_scan s d) =
      sort (filter (\<lambda>r. r \<ge> initial_position s) (requests s))
      @ (if \<exists>r\<in>set (requests s). r < initial_position s then [disk_size s - 1, 0] else [])
      @ sort (filter (\<lambda>r. r < initial_position s) (requests s))"
  by (simp add: c_scan_def Let_def side_simps split: prod.split)

lemma c_scan_left:
  "lower d \<noteq> ''right'' \<Longrightarrow> fst (c_scan s d) =
      rev (sort (filter (\<lambda>r. r \<le> initial_position s) (requests s)))
      @ (if \<exists>r\<in>set (requests s). r > initial_position s then [0, disk_size s - 1] else [])
      @ rev (sort (filter (\<lambda>r. r > initial_position s) (requests s)))"
  by (simp add: c_scan_def Let_def side_simps split: prod.split)

lemma look_right:
  "lower d = ''right'' \<Longrightarrow> fst (look s d) =
      sort (filter (\<lambda>r. r \<ge> initial_position s) (requests s))
      @ rev (sort (filter (\<lambda>r. r < initial_position s) (requests s)))"
  by (simp add: look_def Let_def side_simps split: prod.split)

lemma look_left:
  "lower d \<noteq> ''right'' \<Longrightarrow> fst (look s d) =
      rev (sort (filter (\<lambda>r. r \<le> initial_position s) (requests s)))
      @ sort (filter (\<lambda>r. r > initial_position s) (requests s))"
  by (simp add: look_def Let_def side_simps split: prod.split)

lemma c_look_right:
  "lower d = ''right'' \<Longrightarrow> fst (c_look s d) =
      sort (filter (\<lambda>r. r \<ge> initial_position s) (requests s))
      @ sort (filter (\<lambda>r. r < initial_position s) (requests s))"
  by (simp add: c_look_def Let_def side_simps split: prod.split)

lemma c_look_left:
  "lower d \<noteq> ''right'' \<Longrightarrow> fst (c_look s d) =
      rev (sort (filter (\<lambda>r. r \<le> initial_position s) (requests s)))
      @ rev (sort (filter (\<lambda>r. r > initial_position s) (requests s)))"
  by (simp add: c_look_def Let_def side_simps split: prod.split)

lemma snd_scan: "snd (scan s d) = calculate_seek_time s (fst (scan s d))"
  by (simp add: scan_def Let_def split: prod.split)

lemma snd_c_scan: "snd (c_scan s d) = calculate_seek_time s (fst (c_scan s d))"
  by (simp add: c_scan_def Let_def split: prod.split)

text \<open>
  C5. With direction \<open>right\<close>, SCAN services the requests at or above the initial
  position in increasing order, then the edge track \<open>disk_size - 1\<close> exactly when some
  request lies below the initial position, then the requests below it in decreasing
  order. With direction \<open>left\<close>: the requests at or below the initial position in
  decreasing order, then track 0 exactly when some request lies above it, then the
  requests above it in increasing order.
\<close>

theorem scan_service_order:
  "fst (scan s ''right'') =
      sort (filter (\<lambda>r. r \<ge> initial_position s) (requests s))
      @ (if \<exists>r\<in>set (requests s). r < initial_position s then [disk_size s - 1] else [])
      @ rev (sort (filter (\<lambda>r. r < initial_position s) (requests s)))
   \<and> fst (scan s ''left'') =
      rev (sort (filter (\<lambda>r. r \<le> initial_position s) (requests s)))
      @ (if \<exists>r\<in>set (requests s). r > initial_position s then [0] else [])
      @ sort (filter (\<lambda>r. r > initial_position s) (requests s))"
  using scan_right [OF lower_right, of s] scan_left [OF lower_left, of s] by (rule conjI)

theorem scan_service_order_witness:
  "fst (scan \<lparr>requests = [98, 183, 37, 122, 14, 124, 65, 67], initial_position = 53, disk_size = 200\<rparr> ''right'')
     = [65, 67, 98, 122, 124, 183, 199, 37, 14]
   \<and> fst (scan \<lparr>requests = [98, 183, 37, 122, 14, 124, 65, 67], initial_position = 53, disk_size = 200\<rparr> ''left'')
     = [37, 14, 0, 65, 67, 98, 122, 124, 183]"
  using scan_service_order
    [of "\<lparr>requests = [98, 183, 37, 122, 14, 124, 65, 67], initial_position = 53, disk_size = 200\<rparr>"]
  by simp

text \<open>
  C6. With direction \<open>right\<close>, C-SCAN services the requests at or above the initial
  position in increasing order and, exactly when some request lies below it, continues
  with the waypoints \<open>disk_size - 1\<close> and \<open>0\<close>, in that order, and the requests below
  the initial position in increasing order again. With direction \<open>left\<close>: decreasing
  order on both sides, with the waypoints \<open>0\<close> and \<open>disk_size - 1\<close> between them exactly
  when some request lies above the initial position.
\<close>

theorem c_scan_service_order:
  "fst (c_scan s ''right'') =
      sort (filter (\<lambda>r. r \<ge> initial_position s) (requests s))
      @ (if \<exists>r\<in>set (requests s). r < initial_position s then [disk_size s - 1, 0] else [])
      @ sort (filter (\<lambda>r. r < initial_position s) (requests s))
   \<and> fst (c_scan s ''left'') =
      rev (sort (filter (\<lambda>r. r \<le> initial_position s) (requests s)))
      @ (if \<exists>r\<in>set (requests s). r > initial_position s then [0, disk_size s - 1] else [])
      @ rev (sort (filter (\<lambda>r. r > initial_position s) (requests s)))"
  using c_scan_right [OF lower_right, of s] c_scan_left [OF lower_left, of s] by (rule conjI)

theorem c_scan_service_order_witness:
  "fst (c_scan \<lparr>requests = [98, 183, 37, 122, 14, 124, 65, 67], initial_position = 53, disk_size = 200\<rparr> ''right'')
     = [65, 67, 98, 122, 124, 183, 199, 0, 14, 37]
   \<and> fst (c_scan \<lparr>requests = [98, 183, 37, 122, 14, 124, 65, 67], initial_position = 53, disk_size = 200\<rparr> ''left'')
     = [37, 14, 0, 199, 183, 124, 122, 98, 67, 65]"
  using c_scan_service_order
    [of "\<lparr>requests = [98, 183, 37, 122, 14, 124, 65, 67], initial_position = 53, disk_size = 200\<rparr>"]
  by simp

section \<open>Validation\<close>

lemma validate_requests_Inr:
  "(validate_requests reqs dsize = Inr ()) = (\<forall>r\<in>set reqs. 0 \<le> r \<and> r < dsize)"
  by (induction reqs) auto

lemma init_valid:
  "init reqs pos dsize = Inr s \<Longrightarrow> \<forall>r\<in>set reqs. 0 \<le> r \<and> r < dsize"
  by (auto simp: init_def validate_requests_Inr [symmetric] split: sum.splits)

lemma validate_requests_first_offender:
  "(\<forall>x\<in>set pre. 0 \<le> x \<and> x < dsize) \<Longrightarrow> r < 0 \<or> dsize \<le> r \<Longrightarrow>
     validate_requests (pre @ r # post) dsize = Inl (OutOfBounds r dsize)"
  by (induction pre) auto

text \<open>
  C3 (as the code has it). Construction checks the requests and nothing else: it
  succeeds exactly when every request lies in \<open>[0, disk_size)\<close>, and otherwise raises
  the out-of-bounds error for the first request outside that range. The initial head
  position is not examined: whether construction raises does not depend on it, so
  with requests in range the positions \<open>0\<close> and \<open>disk_size - 1\<close>, and equally \<open>-1\<close> and
  \<open>disk_size\<close>, construct the scheduler.
\<close>

theorem init_checks_requests_only:
  "(init reqs pos dsize = Inr \<lparr>requests = reqs, initial_position = pos, disk_size = dsize\<rparr>)
      = (\<forall>r\<in>set reqs. 0 \<le> r \<and> r < dsize)
   \<and> ((\<forall>x\<in>set pre. 0 \<le> x \<and> x < dsize) \<and> (r < 0 \<or> dsize \<le> r) \<longrightarrow>
        init (pre @ r # post) pos dsize = Inl (OutOfBounds r dsize))
   \<and> ((\<exists>e. init reqs pos dsize = Inl e) = (\<exists>r\<in>set reqs. r < 0 \<or> dsize \<le> r))
   \<and> ((\<exists>e. init reqs pos dsize = Inl e) = (\<exists>e. init reqs pos' dsize = Inl e))"
proof -
  have ok: "(init reqs pos dsize = Inr \<lparr>requests = reqs, initial_position = pos, disk_size = dsize\<rparr>)
      = (\<forall>r\<in>set reqs. 0 \<le> r \<and> r < dsize)" for pos
    by (simp add: init_def validate_requests_Inr [symmetric] split: sum.splits)
  have first: "(\<forall>x\<in>set pre. 0 \<le> x \<and> x < dsize) \<and> (r < 0 \<or> dsize \<le> r) \<longrightarrow>
        init (pre @ r # post) pos dsize = Inl (OutOfBounds r dsize)"
    by (simp add: init_def validate_requests_first_offender)
  have raises: "(\<exists>e. init reqs pos dsize = Inl e) = (\<exists>r\<in>set reqs. r < 0 \<or> dsize \<le> r)" for pos
  proof -
    have "(\<exists>e. init reqs pos dsize = Inl e)
        = (init reqs pos dsize \<noteq> Inr \<lparr>requests = reqs, initial_position = pos, disk_size = dsize\<rparr>)"
      by (auto simp: init_def split: sum.splits)
    then have "(\<exists>e. init reqs pos dsize = Inl e) = (\<not> (\<forall>r\<in>set reqs. 0 \<le> r \<and> r < dsize))"
      by (simp only: ok)
    also have "\<dots> = (\<exists>r\<in>set reqs. r < 0 \<or> dsize \<le> r)"
      by (simp add: not_le not_less de_Morgan_conj)
    finally show ?thesis .
  qed
  have "(\<exists>e. init reqs pos dsize = Inl e) = (\<exists>e. init reqs pos' dsize = Inl e)"
    unfolding raises ..
  with ok first raises show ?thesis
    by blast
qed

theorem init_checks_requests_only_witness:
  "init [0, 199] 0 200 = Inr \<lparr>requests = [0, 199], initial_position = 0, disk_size = 200\<rparr>
   \<and> init [0, 199] 199 200 = Inr \<lparr>requests = [0, 199], initial_position = 199, disk_size = 200\<rparr>
   \<and> init [0, 199, 200, - 1] 53 200 = Inl (OutOfBounds 200 200)
   \<and> init [- 1] 53 200 = Inl (OutOfBounds (- 1) 200)"
proof -
  have valid: "\<forall>r\<in>set [0, 199 :: int]. 0 \<le> r \<and> r < 200"
    by simp
  have a: "init [0, 199] 0 200 = Inr \<lparr>requests = [0, 199], initial_position = 0, disk_size = 200\<rparr>"
    using init_checks_requests_only [of "[0, 199]" 0 200] valid by blast
  have b: "init [0, 199] 199 200 = Inr \<lparr>requests = [0, 199], initial_position = 199, disk_size = 200\<rparr>"
    using init_checks_requests_only [of "[0, 199]" 199 200] valid by blast
  have "init ([0, 199] @ 200 # [- 1]) 53 200 = Inl (OutOfBounds 200 200)"
    using init_checks_requests_only [of _ _ 200 "[0, 199]" 200 "[- 1]" 53] by simp
  then have c: "init [0, 199, 200, - 1] 53 200 = Inl (OutOfBounds 200 200)"
    by simp
  have "init ([] @ (- 1) # []) 53 200 = Inl (OutOfBounds (- 1) 200)"
    using init_checks_requests_only [of _ _ 200 "[]" "- 1" "[]" 53] by simp
  then have d: "init [- 1] 53 200 = Inl (OutOfBounds (- 1) 200)"
    by simp
  from a b c d show ?thesis
    by blast
qed

text \<open>
  C3 as stated fails: with every request in range, the initial positions \<open>-1\<close> and
  \<open>disk_size\<close> are accepted.
\<close>

theorem initial_position_unchecked:
  "init [98, 183, 37] (- 1) 200 = Inr \<lparr>requests = [98, 183, 37], initial_position = - 1, disk_size = 200\<rparr>
   \<and> init [98, 183, 37] 200 200 = Inr \<lparr>requests = [98, 183, 37], initial_position = 200, disk_size = 200\<rparr>"
  by (simp add: init_def)

section \<open>SSTF: the greedy selection\<close>

lemma min_key_from_mem: "min_key_from key best xs \<in> set (best # xs)"
  by (induction xs arbitrary: best) auto

lemma min_key_from_least:
  "\<forall>x\<in>set (best # xs). key (min_key_from key best xs) \<le> key x"
proof (induction xs arbitrary: best)
  case Nil
  show ?case by simp
next
  case (Cons y ys)
  show ?case
    using Cons.IH [of "if key y < key best then y else best"] by (auto split: if_splits)
qed

lemma min_key_from_first:
  "\<exists>pre post. best # xs = pre @ min_key_from key best xs # post
      \<and> (\<forall>y\<in>set pre. key (min_key_from key best xs) < key y)"
proof (induction xs arbitrary: best)
  case Nil
  have "[best] = [] @ min_key_from key best [] # [] \<and> (\<forall>y\<in>set []. key (min_key_from key best []) < key y)"
    by simp
  then show ?case
    by blast
next
  case (Cons x xs)
  show ?case
  proof (cases "key x < key best")
    case True
    let ?m = "min_key_from key x xs"
    have step: "min_key_from key best (x # xs) = ?m"
      using True by simp
    from Cons.IH [of x] obtain pre post
      where split: "x # xs = pre @ ?m # post" and far: "\<forall>y\<in>set pre. key ?m < key y"
      by blast
    have "key ?m \<le> key x"
      using min_key_from_least [of x xs key] by simp
    then have "key ?m < key best"
      using True by simp
    then have "\<forall>y\<in>set (best # pre). key ?m < key y"
      using far by simp
    moreover have "best # x # xs = (best # pre) @ ?m # post"
      using split by simp
    ultimately show ?thesis
      unfolding step by blast
  next
    case False
    let ?m = "min_key_from key best xs"
    have step: "min_key_from key best (x # xs) = ?m"
      using False by simp
    from Cons.IH [of best] obtain pre post
      where split: "best # xs = pre @ ?m # post" and far: "\<forall>y\<in>set pre. key ?m < key y"
      by blast
    show ?thesis
    proof (cases pre)
      case Nil
      with split have "best # xs = ?m # post"
        by (simp only: append_Nil)
      then have "best = ?m"
        by (rule list.inject [THEN iffD1, THEN conjunct1])
      then have "best # x # xs = [] @ ?m # (x # xs) \<and> (\<forall>y\<in>set []. key ?m < key y)"
        by (simp only: append_Nil list.set ball_empty simp_thms)
      then show ?thesis
        unfolding step by blast
    next
      case (Cons b pre')
      with split have "best # xs = b # (pre' @ ?m # post)"
        by (simp only: append_Cons)
      then have "best = b \<and> xs = pre' @ ?m # post"
        by (rule list.inject [THEN iffD1])
      then have b: "b = best" and rest: "xs = pre' @ ?m # post"
        by blast+
      have "key ?m < key best"
        using far Cons b by simp
      then have "key ?m < key x"
        using False by simp
      then have "\<forall>y\<in>set (best # x # pre'). key ?m < key y"
        using far Cons b by simp
      moreover have "best # x # xs = (best # x # pre') @ ?m # post"
        using rest by simp
      ultimately show ?thesis
        unfolding step by blast
    qed
  qed
qed

lemma sstf_loop_step:
  "sstf_loop (r # rs) cur seq =
     sstf_loop (remove1 (min_key_from (\<lambda>x. \<bar>x - cur\<bar>) r rs) (r # rs))
       (min_key_from (\<lambda>x. \<bar>x - cur\<bar>) r rs) (seq @ [min_key_from (\<lambda>x. \<bar>x - cur\<bar>) r rs])"
  by (simp add: Let_def)

lemma sstf_loop_append: "sstf_loop remaining cur seq = seq @ sstf_loop remaining cur []"
proof (induction "length remaining" arbitrary: remaining cur seq rule: less_induct)
  case less
  show ?case
  proof (cases remaining)
    case Nil
    then show ?thesis by simp
  next
    case (Cons r rs)
    let ?c = "min_key_from (\<lambda>x. \<bar>x - cur\<bar>) r rs"
    let ?rest = "remove1 ?c (r # rs)"
    have "?c \<in> set (r # rs)"
      by (rule min_key_from_mem)
    then have shorter: "length ?rest < length remaining"
      unfolding Cons by (simp only: length_remove1) simp
    have "sstf_loop remaining cur seq = sstf_loop ?rest ?c (seq @ [?c])"
      unfolding Cons by (rule sstf_loop_step)
    also have "\<dots> = (seq @ [?c]) @ sstf_loop ?rest ?c []"
      using shorter by (rule less)
    finally have with_seq: "sstf_loop remaining cur seq = seq @ [?c] @ sstf_loop ?rest ?c []"
      by simp
    have "sstf_loop remaining cur [] = sstf_loop ?rest ?c ([] @ [?c])"
      unfolding Cons by (rule sstf_loop_step)
    also have "\<dots> = ([] @ [?c]) @ sstf_loop ?rest ?c []"
      using shorter by (rule less)
    finally have "sstf_loop remaining cur [] = [?c] @ sstf_loop ?rest ?c []"
      by simp
    with with_seq show ?thesis
      by simp
  qed
qed

lemma sstf_loop_mset: "mset (sstf_loop remaining cur seq) = mset seq + mset remaining"
proof (induction remaining cur seq rule: sstf_loop.induct)
  case (1 cur seq)
  show ?case by simp
next
  case (2 r rs cur seq)
  let ?c = "min_key_from (\<lambda>x. \<bar>x - cur\<bar>) r rs"
  have mem: "?c \<in> set (r # rs)"
    by (rule min_key_from_mem)
  have restore: "add_mset ?c (mset (remove1 ?c (r # rs))) = mset (r # rs)"
    using mem by (metis insert_DiffM mset_remove1 set_mset_mset)
  have "mset (sstf_loop (r # rs) cur seq) = mset (seq @ [?c]) + mset (remove1 ?c (r # rs))"
    using "2.IH" [of ?c] by (simp add: Let_def)
  also have "\<dots> = mset seq + add_mset ?c (mset (remove1 ?c (r # rs)))"
    by simp
  finally show ?case
    by (simp only: restore)
qed

text \<open>
  C4 (as the code has it). The loop stops on the empty list. On a non-empty list of
  remaining requests it picks a request that is in the list, at minimum distance from
  the head, and the first such in the list: every request listed before it is strictly
  farther away. It appends the pick to the order, deletes its first occurrence and
  continues from the pick, so the order grows at the end and finally holds every
  request once per occurrence. For requests \<open>[98,183,37,122,14,124,65,67]\<close> and initial
  position 53 the order is \<open>[65,67,37,14,98,122,124,183]\<close> with total seek time 236.
\<close>

theorem sstf_picks_first_nearest:
  "sstf_loop [] cur seq = seq
   \<and> (let closest = min_key_from (\<lambda>x. \<bar>x - cur\<bar>) r rs in
        closest \<in> set (r # rs)
        \<and> (\<forall>x\<in>set (r # rs). \<bar>closest - cur\<bar> \<le> \<bar>x - cur\<bar>)
        \<and> (\<exists>pre post. r # rs = pre @ closest # post \<and> (\<forall>y\<in>set pre. \<bar>closest - cur\<bar> < \<bar>y - cur\<bar>))
        \<and> sstf_loop (r # rs) cur seq = sstf_loop (remove1 closest (r # rs)) closest (seq @ [closest]))
   \<and> sstf_loop remaining cur seq = seq @ sstf_loop remaining cur []
   \<and> mset (sstf_loop remaining cur seq) = mset seq + mset remaining
   \<and> fst (sstf s) = sstf_loop (requests s) (initial_position s) []
   \<and> sstf \<lparr>requests = [98, 183, 37, 122, 14, 124, 65, 67], initial_position = 53, disk_size = 200\<rparr>
       = ([65, 67, 37, 14, 98, 122, 124, 183], 236,
          [(53, 65), (65, 67), (67, 37), (37, 14), (14, 98), (98, 122), (122, 124), (124, 183)])"
proof -
  let ?key = "\<lambda>x. \<bar>x - cur\<bar>"
  let ?c = "min_key_from ?key r rs"
  have mem: "?c \<in> set (r # rs)"
    by (rule min_key_from_mem)
  have least: "\<forall>x\<in>set (r # rs). ?key ?c \<le> ?key x"
    by (rule min_key_from_least)
  have first: "\<exists>pre post. r # rs = pre @ ?c # post \<and> (\<forall>y\<in>set pre. ?key ?c < ?key y)"
    by (rule min_key_from_first)
  have step: "sstf_loop (r # rs) cur seq = sstf_loop (remove1 ?c (r # rs)) ?c (seq @ [?c])"
    by (rule sstf_loop_step)
  have order: "fst (sstf s) = sstf_loop (requests s) (initial_position s) []"
    by (simp add: sstf_def Let_def split: prod.split)
  have scenario: "sstf \<lparr>requests = [98, 183, 37, 122, 14, 124, 65, 67], initial_position = 53, disk_size = 200\<rparr>
       = ([65, 67, 37, 14, 98, 122, 124, 183], 236,
          [(53, 65), (65, 67), (67, 37), (37, 14), (14, 98), (98, 122), (122, 124), (124, 183)])"
    by (simp add: sstf_def calculate_seek_time_def)
  have stop: "sstf_loop [] cur seq = seq"
    by simp
  from stop mem least first step sstf_loop_append [of remaining cur seq]
    sstf_loop_mset [of remaining cur seq] order scenario
  show ?thesis
    unfolding Let_def by blast
qed

theorem sstf_picks_first_nearest_witness:
  "min_key_from (\<lambda>x. \<bar>x - 50\<bar>) 60 [40, 70] = 60
   \<and> sstf_loop [60, 40, 70] 50 [] = sstf_loop [40, 70] 60 [60]"
proof -
  have closest: "min_key_from (\<lambda>x. \<bar>x - 50\<bar>) 60 [40, 70] = 60"
    by simp
  have "sstf_loop (60 # [40, 70]) 50 [] =
      sstf_loop (remove1 (min_key_from (\<lambda>x. \<bar>x - 50\<bar>) 60 [40, 70]) (60 # [40, 70]))
        (min_key_from (\<lambda>x. \<bar>x - 50\<bar>) 60 [40, 70]) ([] @ [min_key_from (\<lambda>x. \<bar>x - 50\<bar>) 60 [40, 70]])"
    using sstf_picks_first_nearest [of 50 "[]" 60 "[40, 70]"] unfolding Let_def by blast
  then have "sstf_loop [60, 40, 70] 50 [] = sstf_loop [40, 70] 60 [60]"
    unfolding closest by simp
  with closest show ?thesis
    by blast
qed

text \<open>
  C4 as stated fails on a tie: from position 50 the requests 60 and 40 are equally
  near, and 60, listed first, is serviced first although 40 is the lower track.
\<close>

theorem sstf_tie_takes_first_listed:
  "init [60, 40] 50 200 = Inr \<lparr>requests = [60, 40], initial_position = 50, disk_size = 200\<rparr>
   \<and> fst (sstf \<lparr>requests = [60, 40], initial_position = 50, disk_size = 200\<rparr>) = [60, 40]
   \<and> \<bar>60 - 50\<bar> = \<bar>40 - (50::int)\<bar> \<and> (40::int) < 60"
  by (simp add: init_def sstf_def calculate_seek_time_def)

section \<open>Edge waypoints\<close>

lemma adjacent_pair_in_zip:
  "(a, b) \<in> set (zip (p # pre @ [a, b] @ post) (pre @ [a, b] @ post))"
proof -
  let ?i = "Suc (length pre)"
  have "(p # pre @ [a, b] @ post) ! ?i = a" and "(pre @ [a, b] @ post) ! ?i = b"
    by (simp_all add: nth_append)
  moreover have "?i < length (p # pre @ [a, b] @ post)" and "?i < length (pre @ [a, b] @ post)"
    by simp_all
  ultimately show ?thesis
    unfolding in_set_zip by (intro exI [of _ ?i]) simp
qed

lemma sorted_le_last: "sorted xs \<Longrightarrow> x \<in> set xs \<Longrightarrow> x \<le> last xs"
  by (induction xs) (auto split: if_splits)

lemma sorted_ends_with_max:
  assumes "sorted xs" and "e \<in> set xs" and "\<forall>x\<in>set xs. x \<le> e"
  shows "xs = butlast xs @ [e]"
proof -
  have ne: "xs \<noteq> []"
    using assms(2) by auto
  then have "last xs \<in> set xs"
    by simp
  then have "last xs \<le> e"
    using assms(3) by blast
  moreover have "e \<le> last xs"
    using assms(1,2) by (rule sorted_le_last)
  ultimately have "last xs = e"
    by simp
  then show ?thesis
    using ne by (metis append_butlast_last_id)
qed

lemma sorted_starts_with_min:
  assumes "sorted xs" and "e \<in> set xs" and "\<forall>x\<in>set xs. e \<le> x"
  shows "xs = e # tl xs"
proof (cases xs)
  case Nil
  then show ?thesis using assms(2) by simp
next
  case (Cons y ys)
  then have "y \<le> e"
    using assms(1,2) by auto
  moreover have "e \<le> y"
    using assms(3) Cons by simp
  ultimately show ?thesis
    using Cons by simp
qed

lemma ahead_ends_with_edge:
  fixes reqs :: "int list"
  assumes "\<forall>r\<in>set reqs. r \<le> e" and "e \<in> set reqs" and "pos \<le> e"
  shows "\<exists>pre. sort (filter (\<lambda>r. r \<ge> pos) reqs) = pre @ [e]"
proof -
  let ?xs = "sort (filter (\<lambda>r. r \<ge> pos) reqs)"
  have "sorted ?xs" by simp
  moreover have "e \<in> set ?xs" using assms(2,3) by simp
  moreover have "\<forall>x\<in>set ?xs. x \<le> e" using assms(1) by simp
  ultimately have "?xs = butlast ?xs @ [e]"
    by (rule sorted_ends_with_max)
  then show ?thesis ..
qed

lemma behind_ends_with_zero:
  fixes reqs :: "int list"
  assumes "\<forall>r\<in>set reqs. 0 \<le> r" and "0 \<in> set reqs" and "0 \<le> pos"
  shows "\<exists>pre. rev (sort (filter (\<lambda>r. r \<le> pos) reqs)) = pre @ [0]"
proof -
  let ?xs = "sort (filter (\<lambda>r. r \<le> pos) reqs)"
  have "sorted ?xs" by simp
  moreover have "0 \<in> set ?xs" using assms(2,3) by simp
  moreover have "\<forall>x\<in>set ?xs. 0 \<le> x" using assms(1) by simp
  ultimately have "?xs = 0 # tl ?xs"
    by (rule sorted_starts_with_min)
  then have "rev ?xs = rev (tl ?xs) @ [0]"
    by (metis rev.simps(2))
  then show ?thesis ..
qed

lemma scan_ops: "snd (snd (scan s d)) = zip (initial_position s # fst (scan s d)) (fst (scan s d))"
  by (simp add: snd_scan calculate_seek_time_ops)

lemma c_scan_ops: "snd (snd (c_scan s d)) = zip (initial_position s # fst (c_scan s d)) (fst (c_scan s d))"
  by (simp add: snd_c_scan calculate_seek_time_ops)

lemma edge_twice_right:
  assumes "init reqs pos dsize = Inr s"
    and h: "pos < dsize" "dsize - 1 \<in> set reqs" "\<exists>r\<in>set reqs. r < pos"
  shows "(\<exists>pre post. fst (scan s ''right'') = pre @ [dsize - 1, dsize - 1] @ post
                \<and> pre @ [dsize - 1] = sort (filter (\<lambda>r. r \<ge> pos) reqs))
            \<and> (dsize - 1, dsize - 1) \<in> set (snd (snd (scan s ''right'')))
            \<and> (\<exists>pre post. fst (c_scan s ''right'') = pre @ [dsize - 1, dsize - 1] @ post
                \<and> pre @ [dsize - 1] = sort (filter (\<lambda>r. r \<ge> pos) reqs))
            \<and> (dsize - 1, dsize - 1) \<in> set (snd (snd (c_scan s ''right'')))"
proof -
  have fields: "requests s = reqs" "initial_position s = pos" "disk_size s = dsize"
    using assms(1) init_requests by blast+
  have valid: "\<forall>r\<in>set reqs. 0 \<le> r \<and> r < dsize"
    using assms(1) by (rule init_valid)
  have "\<forall>r\<in>set reqs. r \<le> dsize - 1"
    using valid by auto
  moreover have "pos \<le> dsize - 1"
    using h(1) by simp
  ultimately obtain pre where pre: "sort (filter (\<lambda>r. r \<ge> pos) reqs) = pre @ [dsize - 1]"
    using ahead_ends_with_edge [of reqs "dsize - 1" pos] h(2) by blast
  let ?down = "rev (sort (filter (\<lambda>r. r < pos) reqs))"
  let ?up = "0 # sort (filter (\<lambda>r. r < pos) reqs)"
  have scan_seq: "fst (scan s ''right'') = pre @ [dsize - 1, dsize - 1] @ ?down"
    using scan_right [OF lower_right, of s] h(3) by (simp add: fields pre)
  have c_scan_seq: "fst (c_scan s ''right'') = pre @ [dsize - 1, dsize - 1] @ ?up"
    using c_scan_right [OF lower_right, of s] h(3) by (simp add: fields pre)
  have "(dsize - 1, dsize - 1) \<in> set (snd (snd (scan s ''right'')))"
    unfolding scan_ops scan_seq by (rule adjacent_pair_in_zip)
  moreover have "(dsize - 1, dsize - 1) \<in> set (snd (snd (c_scan s ''right'')))"
    unfolding c_scan_ops c_scan_seq by (rule adjacent_pair_in_zip)
  ultimately show ?thesis
    using scan_seq c_scan_seq pre by metis
qed

lemma edge_twice_left:
  assumes "init reqs pos dsize = Inr s"
    and h: "0 \<le> pos" "0 \<in> set reqs" "\<exists>r\<in>set reqs. r > pos"
  shows "(\<exists>pre post. fst (scan s ''left'') = pre @ [0, 0] @ post
                \<and> pre @ [0] = rev (sort (filter (\<lambda>r. r \<le> pos) reqs)))
            \<and> (0, 0) \<in> set (snd (snd (scan s ''left'')))
            \<and> (\<exists>pre post. fst (c_scan s ''left'') = pre @ [0, 0] @ post
                \<and> pre @ [0] = rev (sort (filter (\<lambda>r. r \<le> pos) reqs)))
            \<and> (0, 0) \<in> set (snd (snd (c_scan s ''left'')))"
proof -
  have fields: "requests s = reqs" "initial_position s = pos" "disk_size s = dsize"
    using assms(1) init_requests by blast+
  have valid: "\<forall>r\<in>set reqs. 0 \<le> r \<and> r < dsize"
    using assms(1) by (rule init_valid)
  have "\<forall>r\<in>set reqs. 0 \<le> r"
    using valid by auto
  then obtain pre where pre: "rev (sort (filter (\<lambda>r. r \<le> pos) reqs)) = pre @ [0]"
    using behind_ends_with_zero [of reqs pos] h(1,2) by blast
  let ?up = "sort (filter (\<lambda>r. r > pos) reqs)"
  let ?down = "(dsize - 1) # rev (sort (filter (\<lambda>r. r > pos) reqs))"
  have scan_seq: "fst (scan s ''left'') = pre @ [0, 0] @ ?up"
    using scan_left [OF lower_left, of s] h(3) by (simp add: fields pre)
  have c_scan_seq: "fst (c_scan s ''left'') = pre @ [0, 0] @ ?down"
    using c_scan_left [OF lower_left, of s] h(3) by (simp add: fields pre)
  have "(0, 0) \<in> set (snd (snd (scan s ''left'')))"
    unfolding scan_ops scan_seq by (rule adjacent_pair_in_zip)
  moreover have "(0, 0) \<in> set (snd (snd (c_scan s ''left'')))"
    unfolding c_scan_ops c_scan_seq by (rule adjacent_pair_in_zip)
  ultimately show ?thesis
    using scan_seq c_scan_seq pre by metis
qed

lemma scan_right_beyond_disk:
  assumes "init reqs pos dsize = Inr s" and h: "dsize \<le> pos" "dsize - 1 \<in> set reqs"
  shows "\<exists>post. fst (scan s ''right'') = [] @ [dsize - 1, dsize - 1] @ post"
proof -
  have fields: "requests s = reqs" "initial_position s = pos" "disk_size s = dsize"
    using assms(1) init_requests by blast+
  have valid: "\<forall>r\<in>set reqs. 0 \<le> r \<and> r < dsize"
    using assms(1) by (rule init_valid)
  have below: "\<forall>r\<in>set reqs. r < pos"
    using valid h(1) by auto
  then have ahead: "filter (\<lambda>r. r \<ge> pos) reqs = []"
    by (auto simp: filter_empty_conv)
  have behind: "filter (\<lambda>r. r < pos) reqs = reqs"
    using below by (simp add: filter_id_conv)
  have some: "\<exists>r\<in>set reqs. r < pos"
    using below h(2) by blast
  have "sorted (sort reqs)" and "dsize - 1 \<in> set (sort reqs)" and "\<forall>x\<in>set (sort reqs). x \<le> dsize - 1"
    using valid h(2) by auto
  then have "sort reqs = butlast (sort reqs) @ [dsize - 1]"
    by (rule sorted_ends_with_max)
  then have "rev (sort reqs) = (dsize - 1) # rev (butlast (sort reqs))"
    by (metis rev.simps(2) rev_rev_ident rev_swap)
  then have "fst (scan s ''right'') = [] @ [dsize - 1, dsize - 1] @ rev (butlast (sort reqs))"
    using scan_right [OF lower_right, of s] some by (simp add: fields ahead behind)
  then show ?thesis ..
qed

lemma scan_left_below_zero:
  assumes "init reqs pos dsize = Inr s" and h: "pos < 0" "0 \<in> set reqs"
  shows "\<exists>post. fst (scan s ''left'') = [] @ [0, 0] @ post"
proof -
  have fields: "requests s = reqs" "initial_position s = pos" "disk_size s = dsize"
    using assms(1) init_requests by blast+
  have valid: "\<forall>r\<in>set reqs. 0 \<le> r \<and> r < dsize"
    using assms(1) by (rule init_valid)
  have above: "\<forall>r\<in>set reqs. r > pos"
    using valid h(1) by auto
  then have behind: "filter (\<lambda>r. r \<le> pos) reqs = []"
    by (auto simp: filter_empty_conv)
  have ahead: "filter (\<lambda>r. r > pos) reqs = reqs"
    using above by (simp add: filter_id_conv)
  have some: "\<exists>r\<in>set reqs. r > pos"
    using above h(2) by blast
  have "sorted (sort reqs)" and "0 \<in> set (sort reqs)" and "\<forall>x\<in>set (sort reqs). 0 \<le> x"
    using valid h(2) by auto
  then have "sort reqs = 0 # tl (sort reqs)"
    by (rule sorted_starts_with_min)
  then have "fst (scan s ''left'') = [] @ [0, 0] @ tl (sort reqs)"
    using scan_left [OF lower_left, of s] some by (simp add: fields ahead behind)
  then show ?thesis ..
qed

lemma scan_right_edge_twice:
  assumes "init reqs pos dsize = Inr s" and h: "dsize - 1 \<in> set reqs" "\<exists>r\<in>set reqs. r < pos"
  shows "(\<exists>pre post. fst (scan s ''right'') = pre @ [dsize - 1, dsize - 1] @ post)
     \<and> (dsize - 1, dsize - 1) \<in> set (snd (snd (scan s ''right'')))"
proof -
  have "\<exists>pre post. fst (scan s ''right'') = pre @ [dsize - 1, dsize - 1] @ post"
  proof (cases "pos < dsize")
    case True
    then show ?thesis
      using edge_twice_right [OF assms(1) True h] by blast
  next
    case False
    then have "dsize \<le> pos"
      by simp
    then show ?thesis
      using scan_right_beyond_disk [OF assms(1) _ h(1)] by blast
  qed
  then obtain pre post where seq: "fst (scan s ''right'') = pre @ [dsize - 1, dsize - 1] @ post"
    by blast
  have "(dsize - 1, dsize - 1) \<in> set (snd (snd (scan s ''right'')))"
    unfolding scan_ops seq by (rule adjacent_pair_in_zip)
  with seq show ?thesis
    by blast
qed

lemma scan_left_zero_twice:
  assumes "init reqs pos dsize = Inr s" and h: "0 \<in> set reqs" "\<exists>r\<in>set reqs. r > pos"
  shows "(\<exists>pre post. fst (scan s ''left'') = pre @ [0, 0] @ post)
     \<and> (0, 0) \<in> set (snd (snd (scan s ''left'')))"
proof -
  have "\<exists>pre post. fst (scan s ''left'') = pre @ [0, 0] @ post"
  proof (cases "0 \<le> pos")
    case True
    then show ?thesis
      using edge_twice_left [OF assms(1) True h] by blast
  next
    case False
    then have "pos < 0"
      by simp
    then show ?thesis
      using scan_left_below_zero [OF assms(1) _ h(1)] by blast
  qed
  then obtain pre post where seq: "fst (scan s ''left'') = pre @ [0, 0] @ post"
    by blast
  have "(0, 0) \<in> set (snd (snd (scan s ''left'')))"
    unfolding scan_ops seq by (rule adjacent_pair_in_zip)
  with seq show ?thesis
    by blast
qed

text \<open>
  C10 (as the code has it). For a scheduler constructed from requests in range: with
  direction \<open>right\<close>, an initial position below \<open>disk_size\<close>, the edge track
  \<open>disk_size - 1\<close> among the requests and some request below the initial position, the
  orders of SCAN and of C-SCAN hold \<open>disk_size - 1\<close> twice in a row, first as the last
  request of the group at or above the initial position and then as the waypoint, and
  the seek operations contain the zero-length move \<open>(disk_size - 1, disk_size - 1)\<close>.
  With direction \<open>left\<close>, a non-negative initial position, track 0 among the requests
  and some request above the initial position, the same holds for track 0. For SCAN
  the repetition and the zero-length move are there for every initial position, also
  one off the disk, where the waypoint comes first and the request second.
\<close>

theorem edge_request_serviced_twice:
  assumes "init reqs pos dsize = Inr s"
  shows "(pos < dsize \<and> dsize - 1 \<in> set reqs \<and> (\<exists>r\<in>set reqs. r < pos) \<longrightarrow>
            (\<exists>pre post. fst (scan s ''right'') = pre @ [dsize - 1, dsize - 1] @ post
                \<and> pre @ [dsize - 1] = sort (filter (\<lambda>r. r \<ge> pos) reqs))
            \<and> (dsize - 1, dsize - 1) \<in> set (snd (snd (scan s ''right'')))
            \<and> (\<exists>pre post. fst (c_scan s ''right'') = pre @ [dsize - 1, dsize - 1] @ post
                \<and> pre @ [dsize - 1] = sort (filter (\<lambda>r. r \<ge> pos) reqs))
            \<and> (dsize - 1, dsize - 1) \<in> set (snd (snd (c_scan s ''right''))))
       \<and> (0 \<le> pos \<and> 0 \<in> set reqs \<and> (\<exists>r\<in>set reqs. r > pos) \<longrightarrow>
            (\<exists>pre post. fst (scan s ''left'') = pre @ [0, 0] @ post
                \<and> pre @ [0] = rev (sort (filter (\<lambda>r. r \<le> pos) reqs)))
            \<and> (0, 0) \<in> set (snd (snd (scan s ''left'')))
            \<and> (\<exists>pre post. fst (c_scan s ''left'') = pre @ [0, 0] @ post
                \<and> pre @ [0] = rev (sort (filter (\<lambda>r. r \<le> pos) reqs)))
            \<and> (0, 0) \<in> set (snd (snd (c_scan s ''left''))))
       \<and> (dsize - 1 \<in> set reqs \<and> (\<exists>r\<in>set reqs. r < pos) \<longrightarrow>
            (\<exists>pre post. fst (scan s ''right'') = pre @ [dsize - 1, dsize - 1] @ post)
            \<and> (dsize - 1, dsize - 1) \<in> set (snd (snd (scan s ''right''))))
       \<and> (0 \<in> set reqs \<and> (\<exists>r\<in>set reqs. r > pos) \<longrightarrow>
            (\<exists>pre post. fst (scan s ''left'') = pre @ [0, 0] @ post)
            \<and> (0, 0) \<in> set (snd (snd (scan s ''left''))))"
  using edge_twice_right [OF assms] edge_twice_left [OF assms]
    scan_right_edge_twice [OF assms] scan_left_zero_twice [OF assms]
  by blast

theorem edge_request_serviced_twice_witness:
  "init [199, 10] 53 200 = Inr \<lparr>requests = [199, 10], initial_position = 53, disk_size = 200\<rparr>
   \<and> fst (scan \<lparr>requests = [199, 10], initial_position = 53, disk_size = 200\<rparr> ''right'') = [199, 199, 10]
   \<and> fst (c_scan \<lparr>requests = [199, 10], initial_position = 53, disk_size = 200\<rparr> ''right'') = [199, 199, 0, 10]
   \<and> (199, 199) \<in> set (snd (snd (scan \<lparr>requests = [199, 10], initial_position = 53, disk_size = 200\<rparr> ''right'')))
   \<and> (199, 199) \<in> set (snd (snd (c_scan \<lparr>requests = [199, 10], initial_position = 53, disk_size = 200\<rparr> ''right'')))
   \<and> init [0, 100] 53 200 = Inr \<lparr>requests = [0, 100], initial_position = 53, disk_size = 200\<rparr>
   \<and> fst (scan \<lparr>requests = [0, 100], initial_position = 53, disk_size = 200\<rparr> ''left'') = [0, 0, 100]
   \<and> fst (c_scan \<lparr>requests = [0, 100], initial_position = 53, disk_size = 200\<rparr> ''left'') = [0, 0, 199, 100]
   \<and> (0, 0) \<in> set (snd (snd (scan \<lparr>requests = [0, 100], initial_position = 53, disk_size = 200\<rparr> ''left'')))
   \<and> (0, 0) \<in> set (snd (snd (c_scan \<lparr>requests = [0, 100], initial_position = 53, disk_size = 200\<rparr> ''left'')))
   \<and> init [199, 10] 200 200 = Inr \<lparr>requests = [199, 10], initial_position = 200, disk_size = 200\<rparr>
   \<and> (199, 199) \<in> set (snd (snd (scan \<lparr>requests = [199, 10], initial_position = 200, disk_size = 200\<rparr> ''right'')))"
proof -
  let ?s1 = "\<lparr>requests = [199, 10], initial_position = 53, disk_size = 200\<rparr>"
  let ?s2 = "\<lparr>requests = [0, 100], initial_position = 53, disk_size = 200\<rparr>"
  let ?s3 = "\<lparr>requests = [199, 10], initial_position = 200, disk_size = 200\<rparr>"
  have v1: "init [199, 10] 53 200 = Inr ?s1"
    by (simp add: init_def)
  have v2: "init [0, 100] 53 200 = Inr ?s2"
    by (simp add: init_def)
  have v3: "init [199, 10] 200 200 = Inr ?s3"
    by (simp add: init_def)
  have h1: "(53::int) < 200 \<and> 200 - 1 \<in> set [199, 10 :: int] \<and> (\<exists>r\<in>set [199, 10 :: int]. r < 53)"
    by simp
  have h2: "(0::int) \<le> 53 \<and> 0 \<in> set [0, 100 :: int] \<and> (\<exists>r\<in>set [0, 100 :: int]. r > 53)"
    by simp
  have h3: "200 - 1 \<in> set [199, 10 :: int] \<and> (\<exists>r\<in>set [199, 10 :: int]. r < 200)"
    by simp
  have orders: "fst (scan ?s1 ''right'') = [199, 199, 10]" "fst (c_scan ?s1 ''right'') = [199, 199, 0, 10]"
    "fst (scan ?s2 ''left'') = [0, 0, 100]" "fst (c_scan ?s2 ''left'') = [0, 0, 199, 100]"
    by (simp_all add: scan_right c_scan_right lower_right scan_left c_scan_left lower_left)
  have "(200 - 1, 200 - 1) \<in> set (snd (snd (scan ?s1 ''right'')))"
    and "(200 - 1, 200 - 1) \<in> set (snd (snd (c_scan ?s1 ''right'')))"
    using edge_request_serviced_twice [OF v1] h1 by blast+
  then have right: "(199, 199) \<in> set (snd (snd (scan ?s1 ''right'')))"
    "(199, 199) \<in> set (snd (snd (c_scan ?s1 ''right'')))"
    by simp_all
  have left: "(0, 0) \<in> set (snd (snd (scan ?s2 ''left'')))"
    "(0, 0) \<in> set (snd (snd (c_scan ?s2 ''left'')))"
    using edge_request_serviced_twice [OF v2] h2 by blast+
  have "(200 - 1, 200 - 1) \<in> set (snd (snd (scan ?s3 ''right'')))"
    using edge_request_serviced_twice [OF v3] h3 by blast
  then have beyond: "(199, 199) \<in> set (snd (snd (scan ?s3 ''right'')))"
    by simp
  from v1 v2 v3 orders right left beyond show ?thesis
    by blast
qed

text \<open>
  C10 as stated fails for an initial position the constructor accepts although it is
  off the disk: with requests \<open>[199, 10]\<close>, initial position 200, disk size 200 and
  direction \<open>right\<close>, the edge 199 is a request and both requests lie below the initial
  position, yet C-SCAN visits \<open>199, 0, 10, 199\<close> and makes no move from 199 to 199; in
  SCAN's order \<open>199, 199, 10\<close> the group at or above the initial position is empty.
\<close>

theorem c_scan_edge_not_repeated:
  "init [199, 10] 200 200 = Inr \<lparr>requests = [199, 10], initial_position = 200, disk_size = 200\<rparr>
   \<and> 200 - 1 \<in> set [199, 10 :: int]
   \<and> (\<exists>r\<in>set [199, 10 :: int]. r < 200)
   \<and> fst (c_scan \<lparr>requests = [199, 10], initial_position = 200, disk_size = 200\<rparr> ''right'')
       = [199, 0, 10, 199]
   \<and> snd (snd (c_scan \<lparr>requests = [199, 10], initial_position = 200, disk_size = 200\<rparr> ''right''))
       = [(200, 199), (199, 0), (0, 10), (10, 199)]
   \<and> (199, 199) \<notin> set (snd (snd
         (c_scan \<lparr>requests = [199, 10], initial_position = 200, disk_size = 200\<rparr> ''right'')))
   \<and> fst (scan \<lparr>requests = [199, 10], initial_position = 200, disk_size = 200\<rparr> ''right'')
       = [199, 199, 10]
   \<and> filter (\<lambda>r. r \<ge> 200) [199, 10 :: int] = []"
proof -
  let ?s = "\<lparr>requests = [199, 10], initial_position = 200, disk_size = 200\<rparr>"
  have valid: "init [199, 10] 200 200 = Inr ?s"
    by (simp add: init_def)
  have order: "fst (c_scan ?s ''right'') = [199, 0, 10, 199]"
    by (simp add: c_scan_right lower_right)
  have ops: "snd (snd (c_scan ?s ''right'')) = [(200, 199), (199, 0), (0, 10), (10, 199)]"
    by (simp add: c_scan_ops order)
  have absent: "(199, 199) \<notin> set (snd (snd (c_scan ?s ''right'')))"
    unfolding ops by simp
  have scan_order: "fst (scan ?s ''right'') = [199, 199, 10]"
    by (simp add: scan_right lower_right)
  from valid order ops absent scan_order show ?thesis
    by simp
qed

section \<open>Service orders as multisets\<close>

lemma partition_below:
  fixes xs :: "int list"
  shows "mset (filter (\<lambda>r. r \<ge> p) xs) + mset (filter (\<lambda>r. r < p) xs) = mset xs"
proof -
  have "\<forall>x. (p \<le> x) = (\<not> x < p)"
    by auto
  then have "filter_mset (\<lambda>r. p \<le> r) (mset xs) + filter_mset (\<lambda>r. r < p) (mset xs) = mset xs"
    by (rule union_filter_mset_complement)
  then show ?thesis
    by simp
qed

lemma partition_above:
  fixes xs :: "int list"
  shows "mset (filter (\<lambda>r. r \<le> p) xs) + mset (filter (\<lambda>r. r > p) xs) = mset xs"
proof -
  have "\<forall>x. (x \<le> p) = (\<not> p < x)"
    by auto
  then have "filter_mset (\<lambda>r. r \<le> p) (mset xs) + filter_mset (\<lambda>r. p < r) (mset xs) = mset xs"
    by (rule union_filter_mset_complement)
  then show ?thesis
    by simp
qed

lemma sstf_mset: "mset (fst (sstf s)) = mset (requests s)"
  by (simp add: sstf_def Let_def sstf_loop_mset split: prod.split)

lemma look_mset: "mset (fst (look s d)) = mset (requests s)"
proof (cases "lower d = ''right''")
  case True
  then show ?thesis
    using partition_below [of "initial_position s" "requests s"] by (simp add: look_right)
next
  case False
  then show ?thesis
    using partition_above [of "initial_position s" "requests s"] by (simp add: look_left)
qed

lemma c_look_mset: "mset (fst (c_look s d)) = mset (requests s)"
proof (cases "lower d = ''right''")
  case True
  then show ?thesis
    using partition_below [of "initial_position s" "requests s"] by (simp add: c_look_right)
next
  case False
  then show ?thesis
    using partition_above [of "initial_position s" "requests s"] by (simp add: c_look_left)
qed

lemma scan_mset:
  "mset (fst (scan s d)) = mset (requests s) +
     (if lower d = ''right''
      then (if \<exists>r\<in>set (requests s). r < initial_position s then {#disk_size s - 1#} else {#})
      else (if \<exists>r\<in>set (requests s). r > initial_position s then {#0#} else {#}))"
proof (cases "lower d = ''right''")
  case True
  then show ?thesis
    using partition_below [of "initial_position s" "requests s"] by (simp add: scan_right)
next
  case False
  then show ?thesis
    using partition_above [of "initial_position s" "requests s"] by (simp add: scan_left)
qed

lemma c_scan_mset:
  "mset (fst (c_scan s d)) = mset (requests s) +
     (if lower d = ''right''
      then (if \<exists>r\<in>set (requests s). r < initial_position s then {#disk_size s - 1, 0#} else {#})
      else (if \<exists>r\<in>set (requests s). r > initial_position s then {#0, disk_size s - 1#} else {#}))"
proof (cases "lower d = ''right''")
  case True
  then show ?thesis
    using partition_below [of "initial_position s" "requests s"] by (simp add: c_scan_right)
next
  case False
  then show ?thesis
    using partition_above [of "initial_position s" "requests s"] by (simp add: c_scan_left)
qed

text \<open>
  C2 (as the code has it). The orders of SSTF, LOOK and C-LOOK are permutations of
  the request list. The order of SCAN holds the requests and, exactly when some request
  lies on the far side of the initial position, one more element, the edge waypoint
  (\<open>disk_size - 1\<close> when moving right, \<open>0\<close> otherwise); the order of C-SCAN holds the
  requests and in that case both edges.
\<close>

theorem service_order_multisets:
  "mset (fst (sstf s)) = mset (requests s)
   \<and> mset (fst (look s d)) = mset (requests s)
   \<and> mset (fst (c_look s d)) = mset (requests s)
   \<and> mset (fst (scan s d)) = mset (requests s) +
        (if lower d = ''right''
         then (if \<exists>r\<in>set (requests s). r < initial_position s then {#disk_size s - 1#} else {#})
         else (if \<exists>r\<in>set (requests s). r > initial_position s then {#0#} else {#}))
   \<and> mset (fst (c_scan s d)) = mset (requests s) +
        (if lower d = ''right''
         then (if \<exists>r\<in>set (requests s). r < initial_position s then {#disk_size s - 1, 0#} else {#})
         else (if \<exists>r\<in>set (requests s). r > initial_position s then {#0, disk_size s - 1#} else {#}))"
  using sstf_mset [of s] look_mset [of s d] c_look_mset [of s d] scan_mset [of s d] c_scan_mset [of s d]
  by (intro conjI)

theorem service_order_multisets_witness:
  "mset (fst (sstf \<lparr>requests = [98, 183, 37, 122], initial_position = 53, disk_size = 200\<rparr>))
     = mset [98, 183, 37, 122]
   \<and> mset (fst (look \<lparr>requests = [98, 183, 37, 122], initial_position = 53, disk_size = 200\<rparr> ''right''))
     = mset [98, 183, 37, 122]
   \<and> mset (fst (c_look \<lparr>requests = [98, 183, 37, 122], initial_position = 53, disk_size = 200\<rparr> ''right''))
     = mset [98, 183, 37, 122]
   \<and> mset (fst (scan \<lparr>requests = [98, 183, 37, 122], initial_position = 53, disk_size = 200\<rparr> ''right''))
     = mset [98, 183, 37, 122] + {#199#}
   \<and> mset (fst (c_scan \<lparr>requests = [98, 183, 37, 122], initial_position = 53, disk_size = 200\<rparr> ''right''))
     = mset [98, 183, 37, 122] + {#199, 0#}"
  using service_order_multisets
    [of "\<lparr>requests = [98, 183, 37, 122], initial_position = 53, disk_size = 200\<rparr>" "''right''"]
  by (simp add: lower_right)

text \<open>
  C2 as stated fails for SCAN and C-SCAN: for requests \<open>[98,183,37,122,14,124,65,67]\<close>,
  initial position 53, disk size 200 and direction \<open>right\<close> the orders contain the
  waypoints 199, and 199 and 0, next to the eight requests.
\<close>

theorem scan_not_permutation:
  "init [98, 183, 37, 122, 14, 124, 65, 67] 53 200
     = Inr \<lparr>requests = [98, 183, 37, 122, 14, 124, 65, 67], initial_position = 53, disk_size = 200\<rparr>
   \<and> fst (scan \<lparr>requests = [98, 183, 37, 122, 14, 124, 65, 67], initial_position = 53, disk_size = 200\<rparr> ''right'')
       = [65, 67, 98, 122, 124, 183, 199, 37, 14]
   \<and> fst (c_scan \<lparr>requests = [98, 183, 37, 122, 14, 124, 65, 67], initial_position = 53, disk_size = 200\<rparr> ''right'')
       = [65, 67, 98, 122, 124, 183, 199, 0, 14, 37]
   \<and> mset (fst (scan \<lparr>requests = [98, 183, 37, 122, 14, 124, 65, 67], initial_position = 53, disk_size = 200\<rparr> ''right''))
       \<noteq> mset [98, 183, 37, 122, 14, 124, 65, 67]
   \<and> mset (fst (c_scan \<lparr>requests = [98, 183, 37, 122, 14, 124, 65, 67], initial_position = 53, disk_size = 200\<rparr> ''right''))
       \<noteq> mset [98, 183, 37, 122, 14, 124, 65, 67]"
proof -
  let ?reqs = "[98, 183, 37, 122, 14, 124, 65, 67] :: int list"
  let ?s = "\<lparr>requests = ?reqs, initial_position = 53, disk_size = 200\<rparr>"
  have valid: "init ?reqs 53 200 = Inr ?s"
    by (simp add: init_def)
  have scan_seq: "fst (scan ?s ''right'') = [65, 67, 98, 122, 124, 183, 199, 37, 14]"
    by (simp add: scan_right lower_right)
  have c_scan_seq: "fst (c_scan ?s ''right'') = [65, 67, 98, 122, 124, 183, 199, 0, 14, 37]"
    by (simp add: c_scan_right lower_right)
  have "size (mset (fst (scan ?s ''right''))) \<noteq> size (mset ?reqs)"
    unfolding scan_seq by simp
  then have scan_ne: "mset (fst (scan ?s ''right'')) \<noteq> mset ?reqs"
    by metis
  have "size (mset (fst (c_scan ?s ''right''))) \<noteq> size (mset ?reqs)"
    unfolding c_scan_seq by simp
  then have c_scan_ne: "mset (fst (c_scan ?s ''right'')) \<noteq> mset ?reqs"
    by metis
  from valid scan_seq c_scan_seq scan_ne c_scan_ne show ?thesis
    by blast
qed

section \<open>The dispatcher\<close>

subsection \<open>Case conversion\<close>

lemma lower_upper_char: "lower_char (ascii_upper_char c) = lower_char c"
proof (cases "97 \<le> (of_char c :: nat) \<and> (of_char c :: nat) \<le> 122")
  case True
  let ?n = "of_char c :: nat"
  have up: "ascii_upper_char c = char_of (?n - 32)"
    using True by (simp add: ascii_upper_char_def Let_def)
  have "?n - 32 < 256"
    using True by linarith
  then have code: "(of_char (char_of (?n - 32)) :: nat) = ?n - 32"
    by (simp only: of_char_of mod_less)
  have upper_range: "65 \<le> ?n - 32 \<and> ?n - 32 \<le> 90"
    using True by linarith
  have "lower_char (char_of (?n - 32)) = char_of (?n - 32 + 32)"
    using upper_range by (simp only: lower_char_def Let_def code simp_thms if_True)
  also have "?n - 32 + 32 = ?n"
    using True by linarith
  finally have "lower_char (ascii_upper_char c) = c"
    by (simp only: up char_of_char)
  moreover have "lower_char c = c"
    using True by (simp add: lower_char_def Let_def)
  ultimately show ?thesis
    by simp
next
  case False
  then have "ascii_upper_char c = c"
    by (auto simp: ascii_upper_char_def Let_def)
  then show ?thesis
    by simp
qed

lemma upper_lower_char: "ascii_upper_char (lower_char c) = ascii_upper_char c"
proof (cases "65 \<le> (of_char c :: nat) \<and> (of_char c :: nat) \<le> 90")
  case True
  let ?n = "of_char c :: nat"
  have low: "lower_char c = char_of (?n + 32)"
    using True by (simp add: lower_char_def Let_def)
  have "?n + 32 < 256"
    using True by linarith
  then have code: "(of_char (char_of (?n + 32)) :: nat) = ?n + 32"
    by (simp only: of_char_of mod_less)
  have lower_range: "97 \<le> ?n + 32 \<and> ?n + 32 \<le> 122"
    using True by linarith
  have "ascii_upper_char (char_of (?n + 32)) = char_of (?n + 32 - 32)"
    using lower_range by (simp only: ascii_upper_char_def Let_def code simp_thms if_True)
  also have "?n + 32 - 32 = ?n"
    by simp
  finally have "ascii_upper_char (lower_char c) = c"
    by (simp only: low char_of_char)
  moreover have "ascii_upper_char c = c"
    using True by (simp add: ascii_upper_char_def Let_def)
  ultimately show ?thesis
    by simp
next
  case False
  then have "lower_char c = c"
    by (auto simp: lower_char_def Let_def)
  then show ?thesis
    by simp
qed

lemma lower_upper: "lower (ascii_upper str) = lower str"
  by (simp add: lower_def ascii_upper_def lower_upper_char)

lemma upper_lower: "ascii_upper (lower str) = ascii_upper str"
  by (simp add: lower_def ascii_upper_def upper_lower_char)

lemma upper_eq_iff_lower_eq: "(ascii_upper a = ascii_upper b) = (lower a = lower b)"
proof
  assume "ascii_upper a = ascii_upper b"
  then have "lower (ascii_upper a) = lower (ascii_upper b)"
    by simp
  then show "lower a = lower b"
    by (simp only: lower_upper)
next
  assume "lower a = lower b"
  then have "ascii_upper (lower a) = ascii_upper (lower b)"
    by simp
  then show "ascii_upper a = ascii_upper b"
    by (simp only: upper_lower)
qed

lemma upper_char_ascii:
  assumes "(of_char c :: nat) < 128"
  shows "upper_char c = [of_char (ascii_upper_char c)]"
proof (cases "97 \<le> (of_char c :: nat) \<and> (of_char c :: nat) \<le> 122")
  case True
  let ?n = "of_char c :: nat"
  have "?n - 32 < 256"
    using True by linarith
  then have code: "(of_char (char_of (?n - 32)) :: nat) = ?n - 32"
    by (simp only: of_char_of mod_less)
  have "upper_char c = [?n - 32]"
    using True by (simp add: upper_char_def Let_def)
  moreover have "ascii_upper_char c = char_of (?n - 32)"
    using True by (simp add: ascii_upper_char_def Let_def)
  ultimately show ?thesis
    by (simp only: code)
next
  case False
  then have "upper_char c = [of_char c]"
    using assms by (auto simp: upper_char_def Let_def)
  moreover have "ascii_upper_char c = c"
    using False by (auto simp: ascii_upper_char_def Let_def)
  ultimately show ?thesis
    by simp
qed

lemma upper_ascii: "ascii name \<Longrightarrow> upper name = code_points (ascii_upper name)"
  by (induction name) (simp_all add: ascii_def upper_def code_points_def ascii_upper_def upper_char_ascii)

lemma code_points_inject: "(code_points a = code_points b) = (a = b)"
  unfolding code_points_def by (rule inj_map_eq_map) (simp add: inj_on_def)

subsection \<open>Unknown and supported names\<close>

lemma supported_upper: "n \<in> set supported_algorithms \<Longrightarrow> ascii_upper n = n"
  unfolding supported_algorithms_def by (auto; code_simp)

lemma recognized_iff_ascii:
  assumes "ascii name"
  shows "recognized name = (upper name \<in> code_points ` set supported_algorithms)"
proof -
  have "recognized name = (\<exists>n\<in>set supported_algorithms. ascii_upper name = ascii_upper n)"
    by (simp only: recognized_def equal_ignoring_case_def upper_eq_iff_lower_eq)
  also have "\<dots> = (\<exists>n\<in>set supported_algorithms. ascii_upper name = n)"
    using supported_upper by auto
  also have "\<dots> = (\<exists>n\<in>set supported_algorithms. code_points (ascii_upper name) = code_points n)"
    by (simp only: code_points_inject)
  also have "\<dots> = (upper name \<in> code_points ` set supported_algorithms)"
    unfolding upper_ascii [OF assms] by auto
  finally show ?thesis .
qed

lemma dispatch_unknown:
  "n \<notin> code_points ` set supported_algorithms \<Longrightarrow> dispatch s n d = Inl (UnknownAlgorithm n)"
  by (simp add: dispatch_def supported_algorithms_def)

lemma dispatch_known:
  "n \<in> code_points ` set supported_algorithms \<Longrightarrow>
     dispatch s n d =
       Inr (if n = code_points ''FCFS'' then fcfs s
            else if n = code_points ''SSTF'' then sstf s
            else if n = code_points ''SCAN'' then scan s d
            else if n = code_points ''C-SCAN'' \<or> n = code_points ''CSCAN'' then c_scan s d
            else if n = code_points ''LOOK'' then look s d
            else c_look s d)"
  unfolding supported_algorithms_def dispatch_def by auto

lemma simulate_dispatch:
  "simulate s name d =
     (case dispatch s (upper name) d of
        Inl e \<Rightarrow> Inl e
      | Inr outcome \<Rightarrow>
          if quotient_overflows (fst (snd outcome)) (length (fst outcome)) then Inl OverflowError
          else Inr (result_of s (upper name) outcome))"
  by (simp add: simulate_def result_of_def rounded_quotient_def quotient_overflows_def Let_def
      split: sum.splits prod.splits)

text \<open>
  C9 (as the code has it). \<^verbatim>\<open>simulate\<close> raises the unknown-algorithm error, carrying
  the upper-cased name, exactly when the upper-case form of the name is none of FCFS,
  SSTF, SCAN, C-SCAN, CSCAN, LOOK, C-LOOK, CLOOK; that outcome is the same for every
  scheduler and direction, so it depends on no request and on no policy. Otherwise the
  matching policy runs, and \<^verbatim>\<open>simulate\<close> returns the whole result record built from
  that policy's outcome, unless the quotient of the total by the length of the order
  is beyond the range of floats, when the division raises its overflow error. For a
  name of ASCII characters the upper-case form is one of the eight exactly when the
  name is supported in the specification's sense.
\<close>

theorem simulate_unknown_algorithm:
  "(simulate s name d = Inl (UnknownAlgorithm (upper name)))
      = (upper name \<notin> code_points ` set supported_algorithms)
   \<and> (upper name \<notin> code_points ` set supported_algorithms \<longrightarrow>
        simulate s' name d' = simulate s name d)
   \<and> (upper name \<in> code_points ` set supported_algorithms \<longrightarrow>
        (\<exists>outcome. dispatch s (upper name) d = Inr outcome
           \<and> simulate s name d =
               (if quotient_overflows (fst (snd outcome)) (length (fst outcome))
                then Inl OverflowError
                else Inr (result_of s (upper name) outcome))))
   \<and> (upper name \<in> code_points ` set supported_algorithms \<longrightarrow>
        dispatch s (upper name) d =
          Inr (if upper name = code_points ''FCFS'' then fcfs s
               else if upper name = code_points ''SSTF'' then sstf s
               else if upper name = code_points ''SCAN'' then scan s d
               else if upper name = code_points ''C-SCAN'' \<or> upper name = code_points ''CSCAN''
                 then c_scan s d
               else if upper name = code_points ''LOOK'' then look s d
               else c_look s d))
   \<and> (ascii name \<longrightarrow>
        recognized name = (upper name \<in> code_points ` set supported_algorithms))"
proof -
  have spec_ascii: "ascii name \<longrightarrow>
      recognized name = (upper name \<in> code_points ` set supported_algorithms)"
    using recognized_iff_ascii by blast
  show ?thesis
  proof (cases "upper name \<in> code_points ` set supported_algorithms")
    case True
    note policy = dispatch_known [OF True, of s d]
    then obtain outcome where outcome: "dispatch s (upper name) d = Inr outcome"
      by blast
    then have run: "simulate s name d =
        (if quotient_overflows (fst (snd outcome)) (length (fst outcome)) then Inl OverflowError
         else Inr (result_of s (upper name) outcome))"
      by (simp add: simulate_dispatch)
    then have "simulate s name d \<noteq> Inl (UnknownAlgorithm (upper name))"
      by simp
    with True outcome run policy spec_ascii show ?thesis
      by blast
  next
    case False
    have "simulate s0 name d0 = Inl (UnknownAlgorithm (upper name))" for s0 d0
      by (simp add: simulate_dispatch dispatch_unknown [OF False])
    with False spec_ascii show ?thesis
      by simp
  qed
qed

theorem simulate_unknown_algorithm_witness:
  "simulate \<lparr>requests = [98, 183], initial_position = 53, disk_size = 200\<rparr> ''bogus'' ''right''
     = Inl (UnknownAlgorithm (code_points ''BOGUS''))
   \<and> simulate \<lparr>requests = [98, 183], initial_position = 53, disk_size = 200\<rparr> ''c-Scan'' ''right''
     = Inr (result_of \<lparr>requests = [98, 183], initial_position = 53, disk_size = 200\<rparr>
         (code_points ''C-SCAN'')
         (c_scan \<lparr>requests = [98, 183], initial_position = 53, disk_size = 200\<rparr> ''right''))
   \<and> recognized ''c-Scan''
   \<and> \<not> recognized ''bogus''"
proof -
  let ?s = "\<lparr>requests = [98, 183], initial_position = 53, disk_size = 200\<rparr>"
  have ascii: "ascii ''bogus''" "ascii ''c-Scan''"
    by code_simp+
  have up1: "upper ''bogus'' = code_points ''BOGUS''"
    by code_simp
  have up2: "upper ''c-Scan'' = code_points ''C-SCAN''"
    by code_simp
  have unknown: "code_points ''BOGUS'' \<notin> code_points ` set supported_algorithms"
    by (simp add: supported_algorithms_def code_points_def)
  have known: "code_points ''C-SCAN'' \<in> code_points ` set supported_algorithms"
    by (simp add: supported_algorithms_def)
  note bogus = simulate_unknown_algorithm [of ?s "''bogus''" "''right''", unfolded up1]
  note cscan = simulate_unknown_algorithm [of ?s "''c-Scan''" "''right''", unfolded up2]
  have a: "simulate ?s ''bogus'' ''right'' = Inl (UnknownAlgorithm (code_points ''BOGUS''))"
    using bogus unknown by blast
  have not_rec: "\<not> recognized ''bogus''"
    using bogus unknown ascii(1) by blast
  have rec: "recognized ''c-Scan''"
    using cscan known ascii(2) by blast
  from cscan known obtain outcome
    where "dispatch ?s (code_points ''C-SCAN'') ''right'' = Inr outcome"
      and run: "simulate ?s ''c-Scan'' ''right'' =
        (if quotient_overflows (fst (snd outcome)) (length (fst outcome)) then Inl OverflowError
         else Inr (result_of ?s (code_points ''C-SCAN'') outcome))"
    by blast
  moreover have "dispatch ?s (code_points ''C-SCAN'') ''right'' = Inr (c_scan ?s ''right'')"
    by (simp add: dispatch_def code_points_def)
  ultimately have outcome: "outcome = c_scan ?s ''right''"
    by simp
  have order: "c_scan ?s ''right'' = ([98, 183], 130, [(53, 98), (98, 183)])"
    by (simp add: c_scan_def lower_right calculate_seek_time_def)
  have "\<not> quotient_overflows (fst (snd (c_scan ?s ''right''))) (length (fst (c_scan ?s ''right'')))"
    unfolding order by (simp add: quotient_overflows_def)
  then have b: "simulate ?s ''c-Scan'' ''right'' =
      Inr (result_of ?s (code_points ''C-SCAN'') (c_scan ?s ''right''))"
    using run unfolding outcome by simp
  from a b rec not_rec show ?thesis
    by blast
qed

text \<open>
  C9 as stated fails twice. The name made of the sharp s (code point 223) and \<open>tf\<close> is
  not equal to any supported name ignoring case, yet its upper-case form is \<open>SSTF\<close> and
  SSTF runs. And for the supported name \<open>FCFS\<close>, on a disk of \<open>10^309 + 1\<close> tracks with
  the one request \<open>10^309\<close>, no record is returned: the division overflows.
\<close>

theorem simulate_sharp_s_and_overflow:
  "\<not> recognized (char_of (223 :: nat) # ''tf'')
   \<and> simulate \<lparr>requests = [98, 183], initial_position = 53, disk_size = 200\<rparr>
        (char_of (223 :: nat) # ''tf'') ''right''
       = Inr (result_of \<lparr>requests = [98, 183], initial_position = 53, disk_size = 200\<rparr>
           (code_points ''SSTF'')
           (sstf \<lparr>requests = [98, 183], initial_position = 53, disk_size = 200\<rparr>))
   \<and> recognized ''FCFS''
   \<and> init [10 ^ 309] 0 (10 ^ 309 + 1)
       = Inr \<lparr>requests = [10 ^ 309], initial_position = 0, disk_size = 10 ^ 309 + 1\<rparr>
   \<and> simulate \<lparr>requests = [10 ^ 309], initial_position = 0, disk_size = 10 ^ 309 + 1\<rparr>
        ''FCFS'' ''right''
       = Inl OverflowError"
proof -
  let ?s = "\<lparr>requests = [98, 183], initial_position = 53, disk_size = 200\<rparr>"
  let ?big = "\<lparr>requests = [10 ^ 309], initial_position = 0, disk_size = 10 ^ 309 + 1\<rparr>"
  have not_rec: "\<not> recognized (char_of (223 :: nat) # ''tf'')"
    by code_simp
  have up: "upper (char_of (223 :: nat) # ''tf'') = code_points ''SSTF''"
    by code_simp
  have order: "sstf ?s = ([98, 183], 130, [(53, 98), (98, 183)])"
    by (simp add: sstf_def calculate_seek_time_def)
  have "dispatch ?s (code_points ''SSTF'') ''right'' = Inr (sstf ?s)"
    by (simp add: dispatch_def code_points_def)
  moreover have "\<not> quotient_overflows (fst (snd (sstf ?s))) (length (fst (sstf ?s)))"
    unfolding order by (simp add: quotient_overflows_def)
  ultimately have runs: "simulate ?s (char_of (223 :: nat) # ''tf'') ''right''
      = Inr (result_of ?s (code_points ''SSTF'') (sstf ?s))"
    by (simp add: simulate_dispatch up)
  have rec: "recognized ''FCFS''"
    by code_simp
  have valid: "init [10 ^ 309] 0 (10 ^ 309 + 1) = Inr ?big"
    by (simp add: init_def)
  have up_fcfs: "upper ''FCFS'' = code_points ''FCFS''"
    by code_simp
  have fcfs_big: "fcfs ?big = ([10 ^ 309], 10 ^ 309, [(0, 10 ^ 309)])"
    by (simp add: fcfs_def calculate_seek_time_def)
  have "dispatch ?big (code_points ''FCFS'') ''right'' = Inr (fcfs ?big)"
    by (simp add: dispatch_def)
  moreover have "quotient_overflows (fst (snd (fcfs ?big))) (length (fst (fcfs ?big)))"
    unfolding fcfs_big by (simp add: quotient_overflows_def)
  ultimately have overflow: "simulate ?big ''FCFS'' ''right'' = Inl OverflowError"
    by (simp add: simulate_dispatch up_fcfs)
  from not_rec runs rec valid overflow show ?thesis
    by blast
qed

subsection \<open>The average\<close>

text \<open>
  What can be said of the average without interpreting the value of a float: it is
  computed from the total seek time and the length of the service order (waypoints
  included, so not the number of requests), it is the integer \<^verbatim>\<open>0\<close> exactly when the
  order is empty, and the guard on the empty order keeps the division from ever seeing
  the divisor 0. Without requests every policy returns the empty order, total 0 and no
  operation, and \<^verbatim>\<open>simulate\<close> returns the record built from them.
\<close>

lemma simulate_average:
  "simulate s name d = Inr r \<Longrightarrow>
     average_seek_time r =
       (if sequence r \<noteq> [] then Rounded_quotient (total_seek_time r) (length (sequence r))
        else Integer_zero)"
  by (auto simp: simulate_dispatch result_of_def split: sum.splits if_splits)

lemma simulate_no_zero_division: "simulate s name d \<noteq> Inl ZeroDivisionError"
proof (cases "upper name \<in> code_points ` set supported_algorithms")
  case True
  then show ?thesis
    by (simp add: simulate_dispatch dispatch_known)
next
  case False
  then show ?thesis
    by (simp add: simulate_dispatch dispatch_unknown)
qed

lemma no_requests_outcome:
  "requests s = [] \<Longrightarrow>
     fcfs s = ([], 0, []) \<and> sstf s = ([], 0, []) \<and> scan s d = ([], 0, [])
     \<and> c_scan s d = ([], 0, []) \<and> look s d = ([], 0, []) \<and> c_look s d = ([], 0, [])"
  by (simp add: fcfs_def sstf_def scan_def c_scan_def look_def c_look_def
      calculate_seek_time_def sorted_reverse_def Let_def)

lemma simulate_no_requests:
  assumes "upper name \<in> code_points ` set supported_algorithms" and "requests s = []"
  shows "simulate s name d =
     Inr \<lparr>algorithm = upper name, sequence = [], total_seek_time = 0,
          average_seek_time = Integer_zero, seek_operations = [], total_requests = 0,
          result_initial_position = initial_position s\<rparr>"
proof -
  have "dispatch s (upper name) d = Inr ([], 0, [])"
    using no_requests_outcome [OF assms(2)] by (simp add: dispatch_known [OF assms(1)])
  then show ?thesis
    by (simp add: simulate_dispatch result_of_def quotient_overflows_def assms(2))
qed

end
